theory Spec2Isabelle
  imports Main "HOL-Library.Sublist"
begin

section \<open>Library functions used by redditdownload.py\<close>

text \<open>
  Strings are byte strings (Python 2 \<open>str\<close>), modelled as \<open>string\<close>.
  \<open>x in s\<close> on strings is \<^const>\<open>sublist\<close>, \<open>s.startswith(x)\<close> is
  \<^const>\<open>prefix\<close> and \<open>s.endswith(x)\<close> is \<^const>\<open>suffix\<close>.
\<close>

definition dquote :: char where
  "dquote = CHR 0x22"

definition newline :: char where
  "newline = CHR 0x0A"

text \<open>
  \<open>str.replace(old, new)\<close>: every non-overlapping occurrence of \<open>old\<close>, found from
  left to right, is replaced. For an empty \<open>old\<close> Python puts \<open>new\<close> before every
  character and at the end.
\<close>

function str_replace :: "string \<Rightarrow> string \<Rightarrow> string \<Rightarrow> string" where
  "str_replace old new s =
     (if old = [] then new @ concat (map (\<lambda>c. c # new) s)
      else if s = [] then []
      else if prefix old s then new @ str_replace old new (drop (length old) s)
      else hd s # str_replace old new (tl s))"
  by pat_completeness auto
termination
  by (relation "measure (\<lambda>(old, new, s). length s)") auto

declare str_replace.simps [simp del]

text \<open>
  \<open>os.path.basename(p)\<close> (posixpath): \<open>p[p.rfind('/') + 1:]\<close>, the text after the
  last slash.
\<close>

definition basename :: "string \<Rightarrow> string" where
  "basename p = rev (takeWhile (\<lambda>c. c \<noteq> CHR ''/'') (rev p))"

text \<open>
  \<open>os.path.splitext(p)\<close> (posixpath, Python 2.6 and later): the extension starts at
  the last dot of the last path component, unless only dots precede that dot in the
  component; then the extension is empty.
\<close>

definition splitext :: "string \<Rightarrow> string \<times> string" where
  "splitext p =
     (let tail = basename p;
          e = rev (takeWhile (\<lambda>c. c \<noteq> CHR ''.'') (rev tail));
          stem = take (length tail - length e - 1) tail
      in if CHR ''.'' \<in> set tail \<and> list_ex (\<lambda>c. c \<noteq> CHR ''.'') stem
         then (take (length p - length e - 1) p, CHR ''.'' # e)
         else (p, []))"

text \<open>
  \<open>os.path.join(a, b)\<close> (posixpath) for two components.
\<close>

definition path_join :: "string \<Rightarrow> string \<Rightarrow> string" where
  "path_join a b =
     (if prefix ''/'' b then b
      else if a = [] \<or> suffix ''/'' a then a @ b
      else a @ ''/'' @ b)"

text \<open>
  \<open>StringIO(data).readlines()\<close>: the lines of \<open>data\<close>, each with its terminating
  newline when it has one.
\<close>

fun readlines :: "string \<Rightarrow> string list" where
  "readlines [] = []"
| "readlines (c # s) =
     (if c = newline then [c] # readlines s
      else (case readlines s of [] \<Rightarrow> [[c]] | l # ls \<Rightarrow> (c # l) # ls))"

subsection \<open>The album pattern\<close>

text \<open>
  The compiled pattern of \<open>_extractImgurAlbumUrls\<close> is
  \<^verbatim>\<open>"hash":"(.[^"]*)"\<close>: the eight characters \<^verbatim>\<open>"hash":"\<close>, one character
  that is not a newline (it may be a double quote), any number of characters other than a
  double quote, and a closing double quote. The star is greedy, and what it consumed cannot
  match the closing quote, so at a given start there is at most one match.
  \<open>re_match_at s\<close> tries the pattern at the start of \<open>s\<close> and returns the group and
  the text after the match.
\<close>

definition hash_marker :: string where
  "hash_marker = dquote # ''hash'' @ [dquote] @ '':'' @ [dquote]"

definition re_match_at :: "string \<Rightarrow> (string \<times> string) option" where
  "re_match_at s =
     (if \<not> prefix hash_marker s then None
      else (case drop (length hash_marker) s of
              [] \<Rightarrow> None
            | c # t \<Rightarrow>
                if c = newline then None
                else (case dropWhile (\<lambda>x. x \<noteq> dquote) t of
                        [] \<Rightarrow> None
                      | q # rest \<Rightarrow> Some (c # takeWhile (\<lambda>x. x \<noteq> dquote) t, rest))))"

text \<open>
  \<open>re.findall(m, line)\<close>: the groups of the non-overlapping matches, found from left
  to right; after a match the search goes on behind it, after a failure one character
  further.
\<close>

function findall :: "string \<Rightarrow> string list" where
  "findall [] = []"
| "findall (c # s) =
     (case re_match_at (c # s) of
        Some (g, rest) \<Rightarrow> g # findall rest
      | None \<Rightarrow> findall s)"
  by pat_completeness auto
termination
proof (relation "measure length")
  fix c s x g rest
  assume m: "re_match_at (c # s) = Some x" and x: "(g, rest) = x"
  from m x obtain d t q where dr: "drop (length hash_marker) (c # s) = d # t"
    and dw: "dropWhile (\<lambda>x. x \<noteq> dquote) t = q # rest"
    by (auto simp: re_match_at_def split: list.splits if_splits)
  have "length (dropWhile (\<lambda>x. x \<noteq> dquote) t) \<le> length t"
    by (rule length_dropWhile_le)
  with dw have "length rest < length t" by simp
  moreover have "length (d # t) \<le> length (c # s)"
    unfolding dr [symmetric] by simp
  ultimately show "(rest, c # s) \<in> measure length" by simp
qed auto

section \<open>The network\<close>

text \<open>
  \<open>urllib2.urlopen\<close> either raises or returns a response, of which the program reads
  the headers (\<open>response.info()\<close>, keyed by lower-case header name) and then the body
  (\<open>response.read()\<close>), which can raise in its turn when the connection breaks after the
  headers have arrived. The main loop names \<open>HTTPError\<close>, \<open>URLError\<close> and
  \<open>InvalidURL\<close> in its \<open>except\<close> clauses; \<open>httplib.IncompleteRead\<close> and
  \<open>socket.error\<close> stand for what it does not name. A fetch answers a URL the same way
  each time it is asked.
\<close>

datatype transport_error = HTTPError nat | URLError | InvalidURL | IncompleteRead | SocketError

record response =
  info :: "string \<rightharpoonup> string"
  read :: "transport_error + string"

type_synonym urlopen = "string \<Rightarrow> transport_error + response"

section \<open>\<open>_extractImgurAlbumUrls\<close>\<close>

text \<open>
  The loop over the lines: a line without a match is skipped, the matches of any other
  line are appended to \<open>items\<close>.
\<close>

fun album_lines :: "string list \<Rightarrow> string list \<Rightarrow> string list" where
  "album_lines [] items = items"
| "album_lines (line # lines) items =
     (let results = findall line
      in if results = [] then album_lines lines items
         else album_lines lines (items @ results))"

definition album_image_url :: "string \<Rightarrow> string" where
  "album_image_url hash = ''http://i.imgur.com/'' @ hash @ ''.jpg''"

text \<open>
  Nothing in the function catches an exception: what \<open>urlopen\<close> or \<open>read\<close> raises
  leaves the function.
\<close>

definition extractImgurAlbumUrls :: "urlopen \<Rightarrow> string \<Rightarrow> transport_error + string list" where
  "extractImgurAlbumUrls urlopen albumUrl =
     (case urlopen albumUrl of
        Inl err \<Rightarrow> Inl err
      | Inr response \<Rightarrow>
          if (case info response ''content-type'' of
                Some ct \<Rightarrow> \<not> prefix ''text/html'' ct
              | None \<Rightarrow> False)
          then Inr []
          else (case read response of
                  Inl err \<Rightarrow> Inl err
                | Inr filedata \<Rightarrow>
                    Inr (map album_image_url (album_lines (readlines filedata) []))))"

section \<open>\<open>_downloadFromUrl\<close>\<close>

text \<open>
  The file system is a map from the paths that exist to what is there;
  \<open>os.path.exists\<close> is membership in its domain, and writing a new file adds its path.
  Opening the destination for writing is taken to succeed.
\<close>

datatype node = Directory | File string

type_synonym filesystem = "string \<rightharpoonup> node"

definition os_path_exists :: "filesystem \<Rightarrow> string \<Rightarrow> bool" where
  "os_path_exists fs p = (fs p \<noteq> None)"

datatype error = WrongFileTypeException | FileExistsException | Transport transport_error

text \<open>
  The result is the raised exception or the returned filename, together with the file
  system the call leaves behind. The body is read after both checks and before the file
  is opened.
\<close>

definition downloadFromUrl ::
  "urlopen \<Rightarrow> string \<Rightarrow> string \<Rightarrow> filesystem \<Rightarrow> (error + string) \<times> filesystem" where
  "downloadFromUrl urlopen url destDir fs =
     (case urlopen url of
        Inl err \<Rightarrow> (Inl (Transport err), fs)
      | Inr response \<Rightarrow>
          (let filetype =
                 (case info response ''content-type'' of
                    Some ct \<Rightarrow> ct
                  | None \<Rightarrow>
                      if suffix ''.jpg'' url \<or> suffix ''.jpeg'' url then ''image/jpeg''
                      else if suffix ''.png'' url then ''image/png''
                      else if suffix ''.gif'' url then ''image/gif''
                      else ''unknown'')
           in if filetype \<notin> set [''image/jpeg'', ''image/png'', ''image/gif'']
              then (Inl WrongFileTypeException, fs)
              else (let filename = path_join destDir (basename url)
                    in if os_path_exists fs filename then (Inl FileExistsException, fs)
                       else (case read response of
                               Inl err \<Rightarrow> (Inl (Transport err), fs)
                             | Inr filedata \<Rightarrow>
                                 (Inr filename, fs(filename \<mapsto> File filedata))))))"

section \<open>\<open>_processImgurUrl\<close> and \<open>_extractUrls\<close>\<close>

definition processImgurUrl :: "urlopen \<Rightarrow> string \<Rightarrow> transport_error + string list" where
  "processImgurUrl urlopen url =
     (if sublist ''imgur.com/a/'' url then extractImgurAlbumUrls urlopen url
      else if suffix ''.png'' url then Inr [str_replace ''.png'' ''.jpg'' url]
      else (let (base, ext) = splitext (basename url)
            in if ext = [] then Inr [url @ ''.jpg''] else Inr [url]))"

definition extractUrls :: "urlopen \<Rightarrow> string \<Rightarrow> transport_error + string list" where
  "extractUrls urlopen url =
     (if sublist ''imgur.com'' url then processImgurUrl urlopen url else Inr [url])"

section \<open>The main loop\<close>

record post =
  post_id :: string
  post_url :: string
  post_title :: string
  post_score :: int
  post_over_18 :: bool

record args =
  args_reddit :: string
  args_dir :: string
  args_last :: string
  args_score :: int
  args_num :: int
  args_update :: bool
  args_sfw :: bool
  args_nsfw :: bool
  args_regex :: "string option"
  args_verbose :: bool

text \<open>
  What the program calls and does not define: \<open>urllib2.urlopen\<close>,
  \<open>reddit.getitems(subreddit, lastId)\<close> (which may fail like any fetch) and
  \<open>re.match(rule, title)\<close>.
\<close>

record world =
  urllib2_urlopen :: urlopen
  reddit_getitems :: "string \<Rightarrow> string \<Rightarrow> transport_error + post list"
  re_match :: "string \<Rightarrow> string \<Rightarrow> bool"

text \<open>
  The trace of a run, one event for each thing the main loop does: a page request with
  its cursor, the start of the iteration for an item (where \<open>nTotal\<close> is counted), the
  rejection of the item by a filter, a call of \<open>_extractUrls\<close>, and a call of
  \<open>_downloadFromUrl\<close> with its outcome.
\<close>

datatype event =
  EvGetItems string
| EvPost string
| EvFiltered string
| EvResolve string
| EvFetch string "error + string"

text \<open>
  The variables of the main program. \<open>post\<close> is the loop variable of the loop over the
  page, which the program reads after that loop; it is unbound before the first
  iteration.
\<close>

record state =
  nTotal :: int
  nDownloaded :: int
  nErrors :: int
  nSkipped :: int
  nFailed :: int
  bFinished :: bool
  lastId :: string
  post :: "post option"
  files :: filesystem
  trace :: "event list"

text \<open>The four filters, in the order of the \<open>if\<close>/\<open>elif\<close> chain.\<close>

definition rejected :: "args \<Rightarrow> world \<Rightarrow> post \<Rightarrow> bool" where
  "rejected a w p =
     (if post_score p < args_score a then True
      else if args_sfw a \<and> post_over_18 p then True
      else if args_nsfw a \<and> \<not> post_over_18 p then True
      else (case args_regex a of
              None \<Rightarrow> False
            | Some r \<Rightarrow> r \<noteq> [] \<and> \<not> re_match w r (post_title p)))"

text \<open>The exceptions that the \<open>except\<close> clauses of the inner loop name.\<close>

fun caught :: "transport_error \<Rightarrow> bool" where
  "caught (HTTPError code) = True"
| "caught URLError = True"
| "caught InvalidURL = True"
| "caught IncompleteRead = False"
| "caught SocketError = False"

text \<open>
  The loop over the URLs of one posting. A \<open>break\<close> ends the recursion. The two
  exceptions of \<open>_downloadFromUrl\<close> and the three named transport errors are caught; any
  other exception ends the program, here with \<open>Inl\<close> of the exception and the state
  reached.
\<close>

fun for_urls :: "args \<Rightarrow> world \<Rightarrow> string list \<Rightarrow> state \<Rightarrow> (transport_error \<times> state) + state" where
  "for_urls a w [] s = Inr s"
| "for_urls a w (url # urls) s =
     (case downloadFromUrl (urllib2_urlopen w) url (args_dir a) (files s) of
        (Inr filename, fs) \<Rightarrow>
          (let s1 = s\<lparr>files := fs, trace := trace s @ [EvFetch url (Inr filename)],
                      nDownloaded := nDownloaded s + 1\<rparr>
           in if args_num a > 0 \<and> nDownloaded s1 \<ge> args_num a
              then Inr (s1\<lparr>bFinished := True\<rparr>)
              else for_urls a w urls s1)
      | (Inl WrongFileTypeException, fs) \<Rightarrow>
          for_urls a w urls
            (s\<lparr>files := fs, trace := trace s @ [EvFetch url (Inl WrongFileTypeException)],
               nSkipped := nSkipped s + 1\<rparr>)
      | (Inl FileExistsException, fs) \<Rightarrow>
          (let s1 = s\<lparr>files := fs, trace := trace s @ [EvFetch url (Inl FileExistsException)],
                      nErrors := nErrors s + 1\<rparr>
           in if args_update a then Inr (s1\<lparr>bFinished := True\<rparr>)
              else for_urls a w urls s1)
      | (Inl (Transport err), fs) \<Rightarrow>
          (let s1 = s\<lparr>files := fs, trace := trace s @ [EvFetch url (Inl (Transport err))]\<rparr>
           in if caught err then for_urls a w urls (s1\<lparr>nFailed := nFailed s1 + 1\<rparr>)
              else Inl (err, s1)))"

text \<open>
  The loop over the postings of one page. \<open>_extractUrls\<close> is called in the header of
  the inner loop, outside its \<open>try\<close>: whatever it raises ends the program.
\<close>

fun for_posts :: "args \<Rightarrow> world \<Rightarrow> post list \<Rightarrow> state \<Rightarrow> (transport_error \<times> state) + state" where
  "for_posts a w [] s = Inr s"
| "for_posts a w (p # postings) s =
     (let s1 = s\<lparr>post := Some p, nTotal := nTotal s + 1,
                 trace := trace s @ [EvPost (post_id p)]\<rparr>
      in if rejected a w p
         then for_posts a w postings
                (s1\<lparr>nSkipped := nSkipped s1 + 1,
                    trace := trace s1 @ [EvFiltered (post_id p)]\<rparr>)
         else (let s2 = s1\<lparr>trace := trace s1 @ [EvResolve (post_url p)]\<rparr>
               in case extractUrls (urllib2_urlopen w) (post_url p) of
                    Inl err \<Rightarrow> Inl (err, s2)
                  | Inr urls \<Rightarrow>
                      (case for_urls a w urls s2 of
                         Inl x \<Rightarrow> Inl x
                       | Inr s3 \<Rightarrow> if bFinished s3 then Inr s3 else for_posts a w postings s3)))"

text \<open>
  One non-empty page: the loop over its postings, then \<open>lastId = post['id']\<close>, which
  is reached after a \<open>break\<close> as well. \<open>post\<close> is bound after a loop over a page
  that is not empty, and the program enters the loop with no other.
\<close>

definition process_page :: "args \<Rightarrow> world \<Rightarrow> post list \<Rightarrow> state \<Rightarrow> (transport_error \<times> state) + state" where
  "process_page a w postings s =
     (case for_posts a w postings s of
        Inl x \<Rightarrow> Inl x
      | Inr s1 \<Rightarrow> (case post s1 of None \<Rightarrow> Inr s1 | Some p \<Rightarrow> Inr (s1\<lparr>lastId := post_id p\<rparr>)))"

text \<open>
  How far a run has come: the program has returned from its loop, an exception has ended
  it, or it is still in the loop.
\<close>

datatype outcome = Returned state | Raised transport_error state | Running state

fun outcome_state :: "outcome \<Rightarrow> state" where
  "outcome_state (Returned s) = s"
| "outcome_state (Raised err s) = s"
| "outcome_state (Running s) = s"

text \<open>
  The \<open>while not bFinished\<close> loop. The feed may go on for ever, so the loop has fuel, one
  unit for each page request. When the fuel is used up and the loop has not ended, the
  result is \<open>Running\<close> with the state reached: the run has not returned.
\<close>

fun walk :: "nat \<Rightarrow> args \<Rightarrow> world \<Rightarrow> state \<Rightarrow> outcome" where
  "walk fuel a w s =
     (if bFinished s then Returned s
      else (case fuel of
              0 \<Rightarrow> Running s
            | Suc n \<Rightarrow>
                (let s1 = s\<lparr>trace := trace s @ [EvGetItems (lastId s)]\<rparr>
                 in case reddit_getitems w (args_reddit a) (lastId s) of
                      Inl err \<Rightarrow> Raised err s1
                    | Inr postings \<Rightarrow>
                        if postings = [] then Returned s1
                        else (case process_page a w postings s1 of
                                Inl (err, s2) \<Rightarrow> Raised err s2
                              | Inr s2 \<Rightarrow> walk n a w s2))))"

declare walk.simps [simp del]

text \<open>
  The program: the counters at zero, the destination directory created when it is not
  there, the cursor from \<open>--last\<close>.
\<close>

definition init_state :: "args \<Rightarrow> filesystem \<Rightarrow> state" where
  "init_state a fs =
     \<lparr>nTotal = 0, nDownloaded = 0, nErrors = 0, nSkipped = 0, nFailed = 0,
      bFinished = False, lastId = args_last a, post = None,
      files = (if os_path_exists fs (args_dir a) then fs else fs(args_dir a \<mapsto> Directory)),
      trace = []\<rparr>"

definition main :: "nat \<Rightarrow> args \<Rightarrow> world \<Rightarrow> filesystem \<Rightarrow> outcome" where
  "main fuel a w fs = walk fuel a w (init_state a fs)"

section \<open>The specification's own terms\<close>

text \<open>
  The specification resolves the type of a response to jpeg, png, gif or something else:
  from the declared content type when the response has one, else from the extension of
  the URL, else it is unknown.
\<close>

datatype image_type = Jpeg | Png | Gif | Other string | Unknown

definition spec_resolved_type :: "response \<Rightarrow> string \<Rightarrow> image_type" where
  "spec_resolved_type response url =
     (case info response ''content-type'' of
        Some ct \<Rightarrow>
          if ct = ''image/jpeg'' then Jpeg
          else if ct = ''image/png'' then Png
          else if ct = ''image/gif'' then Gif
          else Other ct
      | None \<Rightarrow>
          if suffix ''.jpg'' url \<or> suffix ''.jpeg'' url then Jpeg
          else if suffix ''.png'' url then Png
          else if suffix ''.gif'' url then Gif
          else Unknown)"

text \<open>
  The specification speaks of the host and the path of a URL, which the program never
  takes apart. In \<open>scheme://host/path?query#fragment\<close> the host is what stands between
  \<open>://\<close> and the next \<open>/\<close>, \<open>?\<close> or \<open>#\<close>, and the path is what follows the host up to
  \<open>?\<close> or \<open>#\<close>. Host names do not distinguish upper and lower case. A URL is on the
  image host when its host is \<open>imgur.com\<close> or ends in \<open>.imgur.com\<close>, it is a gallery
  link when its path then starts with the album segment \<open>/a/\<close>, and its path has a file
  extension when the last segment of the path has a dot.
\<close>

definition ascii_lower :: "char \<Rightarrow> char" where
  "ascii_lower c =
     (if c \<in> set ''ABCDEFGHIJKLMNOPQRSTUVWXYZ'' then char_of (of_char c + (32::nat)) else c)"

fun spec_after_scheme :: "string \<Rightarrow> string option" where
  "spec_after_scheme [] = None"
| "spec_after_scheme (c # s) =
     (if prefix ''://'' (c # s) then Some (drop 3 (c # s)) else spec_after_scheme s)"

definition spec_url_hier :: "string \<Rightarrow> string" where
  "spec_url_hier url = (case spec_after_scheme url of Some r \<Rightarrow> r | None \<Rightarrow> url)"

definition spec_url_host :: "string \<Rightarrow> string" where
  "spec_url_host url = takeWhile (\<lambda>c. c \<notin> set ''/?#'') (spec_url_hier url)"

definition spec_url_rest :: "string \<Rightarrow> string" where
  "spec_url_rest url = dropWhile (\<lambda>c. c \<notin> set ''/?#'') (spec_url_hier url)"

definition spec_url_path :: "string \<Rightarrow> string" where
  "spec_url_path url = takeWhile (\<lambda>c. c \<notin> set ''?#'') (spec_url_rest url)"

definition spec_on_image_host :: "string \<Rightarrow> bool" where
  "spec_on_image_host url =
     (map ascii_lower (spec_url_host url) = ''imgur.com'' \<or>
      suffix ''.imgur.com'' (map ascii_lower (spec_url_host url)))"

definition spec_is_gallery :: "string \<Rightarrow> bool" where
  "spec_is_gallery url = (spec_on_image_host url \<and> prefix ''/a/'' (spec_url_path url))"

definition spec_path_has_extension :: "string \<Rightarrow> bool" where
  "spec_path_has_extension url = (CHR ''.'' \<in> set (basename (spec_url_path url)))"

section \<open>Runs and their traces\<close>

text \<open>
  The state a loop over a page ends in, whether an exception ended it or not, and the
  events that the five counters count.
\<close>

definition final_state :: "(transport_error \<times> state) + state \<Rightarrow> state" where
  "final_state r = (case r of Inl (err, s) \<Rightarrow> s | Inr s \<Rightarrow> s)"

fun is_post :: "event \<Rightarrow> bool" where
  "is_post (EvPost i) = True"
| "is_post ev = False"

fun is_downloaded :: "event \<Rightarrow> bool" where
  "is_downloaded (EvFetch url (Inr filename)) = True"
| "is_downloaded ev = False"

fun is_exists :: "event \<Rightarrow> bool" where
  "is_exists (EvFetch url (Inl FileExistsException)) = True"
| "is_exists ev = False"

fun is_skipped :: "event \<Rightarrow> bool" where
  "is_skipped (EvFiltered i) = True"
| "is_skipped (EvFetch url (Inl WrongFileTypeException)) = True"
| "is_skipped ev = False"

fun is_failed :: "event \<Rightarrow> bool" where
  "is_failed (EvFetch url (Inl (Transport err))) = caught err"
| "is_failed ev = False"

definition count_events :: "(event \<Rightarrow> bool) \<Rightarrow> event list \<Rightarrow> int" where
  "count_events P tr = int (length (filter P tr))"

text \<open>
  A trace is quiet when nothing in it stops the run: with a target count set, fewer
  downloads than the target; in update mode, no file found present. The invariant of the
  main loop: the trace without its last event is quiet, the whole trace is as long as
  \<open>bFinished\<close> is not set, and the counters count their events.
\<close>

definition quiet :: "args \<Rightarrow> event list \<Rightarrow> bool" where
  "quiet a tr \<longleftrightarrow>
     (0 < args_num a \<longrightarrow> count_events is_downloaded tr < args_num a) \<and>
     (args_update a \<longrightarrow> count_events is_exists tr = 0)"

definition run_inv :: "args \<Rightarrow> state \<Rightarrow> bool" where
  "run_inv a s \<longleftrightarrow>
     quiet a (butlast (trace s)) \<and>
     (\<not> bFinished s \<longrightarrow> quiet a (trace s)) \<and>
     nTotal s = count_events is_post (trace s) \<and>
     nDownloaded s = count_events is_downloaded (trace s) \<and>
     nErrors s = count_events is_exists (trace s) \<and>
     nSkipped s = count_events is_skipped (trace s) \<and>
     nFailed s = count_events is_failed (trace s)"

section \<open>Example inputs\<close>

definition no_network :: urlopen where
  "no_network url = Inl URLError"

definition png_response :: response where
  "png_response = \<lparr>info = [''content-type'' \<mapsto> ''image/png''], read = Inr ''PNG data''\<rparr>"

definition album_page :: response where
  "album_page =
     \<lparr>info = [''content-type'' \<mapsto> ''text/html; charset=utf-8''],
      read = Inr (''{'' @ hash_marker @ ''abc'' @ [dquote] @ '',x}'' @ [newline] @
             ''no match here'' @ [newline] @
             hash_marker @ ''def'' @ [dquote] @ '' '' @ hash_marker @ ''abc'' @ [dquote])\<rparr>"

definition example_net :: urlopen where
  "example_net url =
     (if url = ''http://imgur.com/a/xyz'' then Inr album_page
      else if url = ''http://imgur.com/a/cut'' then
        Inr \<lparr>info = [''content-type'' \<mapsto> ''text/html''], read = Inl IncompleteRead\<rparr>
      else if url = ''http://example.com/pic.png'' then Inr png_response
      else if url = ''http://example.com/raw.gif'' then
        Inr \<lparr>info = Map.empty, read = Inr ''GIF data''\<rparr>
      else Inl (HTTPError 404))"

section \<open>Example feeds\<close>

definition jpeg_response :: "string \<Rightarrow> response" where
  "jpeg_response data = \<lparr>info = [''content-type'' \<mapsto> ''image/jpeg''], read = Inr data\<rparr>"

definition feed_net :: urlopen where
  "feed_net url =
     (if url \<in> set [''http://example.com/one.jpg'', ''http://example.com/two.jpg'',
                     ''http://example.com/three.jpg'', ''http://example.com/four.jpg'']
      then Inr (jpeg_response url)
      else if url = ''http://imgur.com/a/xyz'' then Inl URLError
      else Inl (HTTPError 404))"

definition feed_post :: "string \<Rightarrow> string \<Rightarrow> int \<Rightarrow> post" where
  "feed_post i u sc =
     \<lparr>post_id = i, post_url = u, post_title = ''a title'', post_score = sc,
      post_over_18 = False\<rparr>"

definition feed_page :: "post list" where
  "feed_page =
     [feed_post ''t1'' ''http://example.com/one.jpg'' 10,
      feed_post ''t2'' ''http://example.com/two.jpg'' 10,
      feed_post ''t3'' ''http://example.com/three.jpg'' 10,
      feed_post ''t4'' ''http://example.com/four.jpg'' 10]"

definition feed_getitems :: "post list \<Rightarrow> string \<Rightarrow> string \<Rightarrow> transport_error + post list" where
  "feed_getitems page subreddit previd = (if previd = [] then Inr page else Inr [])"

definition any_title :: "string \<Rightarrow> string \<Rightarrow> bool" where
  "any_title rule title = True"

definition feed_world :: "post list \<Rightarrow> world" where
  "feed_world page =
     \<lparr>urllib2_urlopen = feed_net, reddit_getitems = feed_getitems page, re_match = any_title\<rparr>"

definition default_args :: args where
  "default_args =
     \<lparr>args_reddit = ''pics'', args_dir = ''out'', args_last = [], args_score = 0,
      args_num = 0, args_update = False, args_sfw = False, args_nsfw = False,
      args_regex = None, args_verbose = False\<rparr>"

definition num1_args :: args where
  "num1_args = default_args\<lparr>args_num := 1\<rparr>"

definition update_args :: args where
  "update_args = default_args\<lparr>args_update := True\<rparr>"

definition score_args :: args where
  "score_args = default_args\<lparr>args_score := 50\<rparr>"

definition two_page :: "post list" where
  "two_page = take 2 feed_page"

definition old_files :: filesystem where
  "old_files = [''out'' \<mapsto> Directory, ''out/three.jpg'' \<mapsto> File ''seen before'']"

text \<open>
  Two pages of two items each. The first item of one is an album whose page cannot be
  fetched, the first item of the other a direct link that cannot be fetched.
\<close>

definition album_first_page :: "post list" where
  "album_first_page =
     [feed_post ''a1'' ''http://imgur.com/a/xyz'' 10,
      feed_post ''t1'' ''http://example.com/one.jpg'' 10]"

definition gone_first_page :: "post list" where
  "gone_first_page =
     [feed_post ''g1'' ''http://example.com/gone.jpg'' 10,
      feed_post ''t1'' ''http://example.com/one.jpg'' 10]"

text \<open>Whether a run has returned, and what ended it if an exception did.\<close>

fun returned :: "outcome \<Rightarrow> bool" where
  "returned (Returned s) = True"
| "returned r = False"

fun raised :: "outcome \<Rightarrow> transport_error option" where
  "raised (Raised err s) = Some err"
| "raised r = None"

section \<open>The gallery expander\<close>

text \<open>
  The matcher is the pattern: it succeeds at the start of \<open>s\<close> exactly when \<open>s\<close> is
  the marker, a character that is not a newline, characters other than the double quote,
  and a double quote; the group is what stands between the marker and that quote.
\<close>

lemma re_match_at_iff:
  "re_match_at s = Some (g, rest) \<longleftrightarrow>
     (\<exists>c t. s = hash_marker @ c # t @ dquote # rest \<and> c \<noteq> newline \<and>
            dquote \<notin> set t \<and> g = c # t)"
proof
  assume m: "re_match_at s = Some (g, rest)"
  then have p: "prefix hash_marker s"
    by (auto simp: re_match_at_def split: if_splits)
  from m p obtain c t q where dr: "drop (length hash_marker) s = c # t"
    and c: "c \<noteq> newline"
    and dw: "dropWhile (\<lambda>x. x \<noteq> dquote) t = q # rest"
    and g: "g = c # takeWhile (\<lambda>x. x \<noteq> dquote) t"
    by (auto simp: re_match_at_def split: list.splits if_splits)
  from dw have q: "q = dquote"
    using hd_dropWhile [of "\<lambda>x. x \<noteq> dquote" t] by auto
  have t: "t = takeWhile (\<lambda>x. x \<noteq> dquote) t @ dquote # rest"
    using takeWhile_dropWhile_id [of "\<lambda>x. x \<noteq> dquote" t] dw q by simp
  from p dr have "s = hash_marker @ c # t"
    by (auto simp: prefix_def)
  with t have "s = hash_marker @ c # takeWhile (\<lambda>x. x \<noteq> dquote) t @ dquote # rest"
    by simp
  moreover have "dquote \<notin> set (takeWhile (\<lambda>x. x \<noteq> dquote) t)"
    by (auto dest: set_takeWhileD)
  ultimately show "\<exists>c t. s = hash_marker @ c # t @ dquote # rest \<and> c \<noteq> newline \<and>
            dquote \<notin> set t \<and> g = c # t"
    using c g by blast
next
  assume "\<exists>c t. s = hash_marker @ c # t @ dquote # rest \<and> c \<noteq> newline \<and>
            dquote \<notin> set t \<and> g = c # t"
  then obtain c t where s: "s = hash_marker @ c # t @ dquote # rest" and c: "c \<noteq> newline"
    and t: "dquote \<notin> set t" and g: "g = c # t"
    by blast
  from t have tw: "takeWhile (\<lambda>x. x \<noteq> dquote) (t @ dquote # rest) = t"
    by (subst takeWhile_append2) auto
  from t have dw: "dropWhile (\<lambda>x. x \<noteq> dquote) (t @ dquote # rest) = dquote # rest"
    by (subst dropWhile_append2) auto
  show "re_match_at s = Some (g, rest)"
    using c g tw dw by (simp add: re_match_at_def s)
qed

text \<open>The loop over the lines collects the matches of the lines in order.\<close>

lemma album_lines_concat: "album_lines lines items = items @ concat (map findall lines)"
  by (induction lines arbitrary: items) (auto simp: Let_def)

text \<open>
  What does hold of the expander: a response that declares a content type not starting
  with \<open>text/html\<close> gives the empty list, and its body is not read.
\<close>

lemma expander_non_html_empty:
  assumes "urlopen albumUrl = Inr response"
    and "info response ''content-type'' = Some ct"
    and "\<not> prefix ''text/html'' ct"
  shows "extractImgurAlbumUrls urlopen albumUrl = Inr []"
  using assms by (simp add: extractImgurAlbumUrls_def)

text \<open>
  C1: the expander never raises. The code does not do that. When the album page cannot
  be fetched, \<open>urlopen\<close> raises inside the expander, which has no \<open>try\<close>; when the
  connection breaks while the body is read, \<open>read\<close> raises there. The main loop calls
  \<open>_extractUrls\<close> outside its \<open>try\<close>, so the exception ends the run: the first item
  of the page is an album that cannot be fetched, and the second item is never reached.
  The same failure of a direct link is caught by the main loop, counted in \<open>nFailed\<close>,
  and the run goes on to the second item.
\<close>

theorem album_fetch_failure_ends_run:
  "extractImgurAlbumUrls feed_net ''http://imgur.com/a/xyz'' = Inl URLError \<and>
   extractImgurAlbumUrls example_net ''http://imgur.com/a/cut'' = Inl IncompleteRead \<and>
   raised (main 3 default_args (feed_world album_first_page) Map.empty) = Some URLError \<and>
   trace (outcome_state (main 3 default_args (feed_world album_first_page) Map.empty)) =
     [EvGetItems [], EvPost ''a1'', EvResolve ''http://imgur.com/a/xyz''] \<and>
   nFailed (outcome_state (main 3 default_args (feed_world album_first_page) Map.empty)) = 0 \<and>
   returned (main 3 default_args (feed_world gone_first_page) Map.empty) \<and>
   nFailed (outcome_state (main 3 default_args (feed_world gone_first_page) Map.empty)) = 1 \<and>
   nDownloaded (outcome_state (main 3 default_args (feed_world gone_first_page) Map.empty)) = 1"
  by code_simp

text \<open>
  C8: when the album page is HTML (its declared content type starts with \<open>text/html\<close>,
  or it declares none), the expander returns one URL
  \<open>http://i.imgur.com/<token>.jpg\<close> for every token that the pattern matches in the
  lines of the body, in the order of the document, duplicates included. (When the body
  cannot be read there is no body to scan, and what \<open>read\<close> raised is raised.)
\<close>

theorem album_urls_in_document_order:
  assumes "urlopen albumUrl = Inr response"
    and "info response ''content-type'' = None \<or>
         (\<exists>ct. info response ''content-type'' = Some ct \<and> prefix ''text/html'' ct)"
  shows "extractImgurAlbumUrls urlopen albumUrl =
           (case read response of
              Inl err \<Rightarrow> Inl err
            | Inr filedata \<Rightarrow>
                Inr (map (\<lambda>token. ''http://i.imgur.com/'' @ token @ ''.jpg'')
                       (concat (map findall (readlines filedata)))))"
proof -
  have "map album_image_url = map (\<lambda>token. ''http://i.imgur.com/'' @ token @ ''.jpg'')"
    by (simp add: album_image_url_def [abs_def])
  with assms show ?thesis
    by (auto simp: extractImgurAlbumUrls_def album_lines_concat split: sum.splits)
qed

theorem album_urls_in_document_order_witness:
  "example_net ''http://imgur.com/a/xyz'' = Inr album_page \<and>
   info album_page ''content-type'' = Some ''text/html; charset=utf-8'' \<and>
   prefix ''text/html'' ''text/html; charset=utf-8'' \<and>
   extractImgurAlbumUrls example_net ''http://imgur.com/a/xyz'' =
     Inr [''http://i.imgur.com/abc.jpg'', ''http://i.imgur.com/def.jpg'',
          ''http://i.imgur.com/abc.jpg'']"
proof -
  have h: "example_net ''http://imgur.com/a/xyz'' = Inr album_page"
    by (simp add: example_net_def)
  have c: "info album_page ''content-type'' = Some ''text/html; charset=utf-8''"
    by (simp add: album_page_def)
  have p: "prefix ''text/html'' ''text/html; charset=utf-8''" by simp
  have t: "(case read album_page of
              Inl err \<Rightarrow> Inl err
            | Inr filedata \<Rightarrow>
                Inr (map (\<lambda>token. ''http://i.imgur.com/'' @ token @ ''.jpg'')
                       (concat (map findall (readlines filedata))))) =
           (Inr [''http://i.imgur.com/abc.jpg'', ''http://i.imgur.com/def.jpg'',
                 ''http://i.imgur.com/abc.jpg''] :: transport_error + string list)"
    by code_simp
  from c p have "info album_page ''content-type'' = None \<or>
         (\<exists>ct. info album_page ''content-type'' = Some ct \<and> prefix ''text/html'' ct)"
    by blast
  from album_urls_in_document_order [of example_net "''http://imgur.com/a/xyz''" album_page,
      OF h this] t h c p
  show ?thesis by simp
qed

section \<open>The link resolver\<close>

text \<open>
  What does hold of other URLs: one in which the text \<open>imgur.com\<close> does not occur
  resolves to itself.
\<close>

lemma other_urls_unchanged:
  assumes "\<not> sublist ''imgur.com'' url"
  shows "extractUrls urlopen url = Inr [url]"
  using assms by (simp add: extractUrls_def)

text \<open>
  C3: a URL that is neither a gallery link nor on the image host resolves to the
  singleton of itself, unmodified. The code does not do that for every such URL: it
  takes any URL in which the text \<open>imgur.com\<close> occurs for one of the image host, and
  any in which \<open>imgur.com/a/\<close> occurs for an album. A picture on the host
  \<open>notimgur.com\<close> has its \<open>.png\<close> rewritten, a page of \<open>example.com\<close> with
  \<open>imgur.com\<close> in its path gains \<open>.jpg\<close>, and one with \<open>imgur.com/a/\<close> in its
  path is fetched as an album, which raises when the fetch fails.
\<close>

theorem other_host_rewritten:
  "\<not> spec_on_image_host ''http://notimgur.com/pic.png'' \<and>
   \<not> spec_is_gallery ''http://notimgur.com/pic.png'' \<and>
   extractUrls no_network ''http://notimgur.com/pic.png'' =
     Inr [''http://notimgur.com/pic.jpg''] \<and>
   \<not> spec_on_image_host ''http://example.com/imgur.com/pic'' \<and>
   \<not> spec_is_gallery ''http://example.com/imgur.com/pic'' \<and>
   extractUrls no_network ''http://example.com/imgur.com/pic'' =
     Inr [''http://example.com/imgur.com/pic.jpg''] \<and>
   \<not> spec_on_image_host ''http://example.com/imgur.com/a/x'' \<and>
   \<not> spec_is_gallery ''http://example.com/imgur.com/a/x'' \<and>
   extractUrls no_network ''http://example.com/imgur.com/a/x'' = Inl URLError"
  by code_simp

subsection \<open>URLs of the image host\<close>

text \<open>
  What \<open>os.path.splitext\<close> finds in the last segment of a URL that ends in an
  extension, and what \<open>str.replace\<close> does when \<open>.png\<close> occurs at the end only.
\<close>

lemma basename_no_slash: "CHR ''/'' \<notin> set (basename p)"
  by (auto simp: basename_def dest: set_takeWhileD)

lemma basename_idem: "basename (basename p) = basename p"
  by (simp add: basename_def)

lemma suffix_basename:
  assumes "suffix x p" and "CHR ''/'' \<notin> set x"
  shows "suffix x (basename p)"
proof -
  from assms(1) obtain y where p: "p = y @ x" by (auto simp: suffix_def)
  from assms(2) have "takeWhile (\<lambda>c. c \<noteq> CHR ''/'') (rev x @ rev y) =
      rev x @ takeWhile (\<lambda>c. c \<noteq> CHR ''/'') (rev y)"
    by (subst takeWhile_append2) auto
  then have "basename p = rev (takeWhile (\<lambda>c. c \<noteq> CHR ''/'') (rev y)) @ x"
    by (simp add: basename_def p)
  then show ?thesis by (simp add: suffix_def)
qed

lemma splitext_basename:
  assumes "basename url = stem @ CHR ''.'' # e" and "CHR ''.'' \<notin> set e"
  shows "snd (splitext (basename url)) =
           (if list_ex (\<lambda>c. c \<noteq> CHR ''.'') stem then CHR ''.'' # e else [])"
proof -
  from assms(2) have "takeWhile (\<lambda>c. c \<noteq> CHR ''.'') (rev e @ CHR ''.'' # rev stem) = rev e"
    by (subst takeWhile_append2) auto
  then have e: "rev (takeWhile (\<lambda>c. c \<noteq> CHR ''.'') (rev (basename url))) = e"
    by (simp add: assms(1))
  have stem: "take (length (basename url) - length e - 1) (basename url) = stem"
    by (simp add: assms(1))
  have dot: "CHR ''.'' \<in> set (basename url)" by (simp add: assms(1))
  show ?thesis
    unfolding splitext_def basename_idem Let_def e stem using dot by simp
qed

lemma imgur_extension:
  assumes s: "suffix (CHR ''.'' # e) url" and e: "CHR ''.'' \<notin> set e" "CHR ''/'' \<notin> set e"
  shows "snd (splitext (basename url)) =
           (if list_ex (\<lambda>c. c \<noteq> CHR ''.'')
                 (take (length (basename url) - length (CHR ''.'' # e)) (basename url))
            then CHR ''.'' # e else [])"
proof -
  from s e have "suffix (CHR ''.'' # e) (basename url)" by (intro suffix_basename) auto
  then obtain stem where b: "basename url = stem @ CHR ''.'' # e" by (auto simp: suffix_def)
  have "take (length (basename url) - length (CHR ''.'' # e)) (basename url) = stem"
    by (simp add: b)
  with splitext_basename [OF b e(1)] show ?thesis by simp
qed

lemma not_png:
  assumes "suffix ext url" and "ext \<in> {''.jpg'', ''.jpeg'', ''.gif''}"
  shows "\<not> suffix ''.png'' url"
proof
  assume p: "suffix ''.png'' url"
  from assms(1) p have "suffix ext ''.png'' \<or> suffix ''.png'' ext"
    by (rule suffix_same_cases) 
  with assms(2) show False by (auto simp: suffix_to_prefix)
qed

lemma str_replace_no_prefix:
  assumes "old \<noteq> []" and "\<not> prefix old (c # s)"
  shows "str_replace old new (c # s) = c # str_replace old new s"
  using assms by (subst str_replace.simps) simp

lemma str_replace_trailing:
  assumes "\<forall>ps ss. stem @ ''.png'' = ps @ ''.png'' @ ss \<longrightarrow> ss = []"
  shows "str_replace ''.png'' ''.jpg'' (stem @ ''.png'') = stem @ ''.jpg''"
  using assms
proof (induction stem)
  case Nil
  show ?case by code_simp
next
  case (Cons c stem)
  have np: "\<not> prefix ''.png'' (c # stem @ ''.png'')"
  proof
    assume "prefix ''.png'' (c # stem @ ''.png'')"
    then obtain ss where ss: "c # stem @ ''.png'' = ''.png'' @ ss" by (auto simp: prefix_def)
    with Cons.prems have "ss = []" by (metis append_Cons append_Nil)
    with ss show False by simp
  qed
  have tl: "\<forall>ps ss. stem @ ''.png'' = ps @ ''.png'' @ ss \<longrightarrow> ss = []"
  proof (intro allI impI)
    fix ps ss assume "stem @ ''.png'' = ps @ ''.png'' @ ss"
    then have "(c # stem) @ ''.png'' = (c # ps) @ ''.png'' @ ss" by simp
    with Cons.prems show "ss = []" by blast
  qed
  have "str_replace ''.png'' ''.jpg'' (c # stem @ ''.png'') =
          c # str_replace ''.png'' ''.jpg'' (stem @ ''.png'')"
    using str_replace_no_prefix [OF _ np] by simp
  with Cons.IH [OF tl] show ?case by simp
qed

lemma str_replace_png_at_end:
  assumes "suffix ''.png'' url" and "\<not> sublist ''.png'' (butlast url)"
  shows "str_replace ''.png'' ''.jpg'' url = take (length url - 4) url @ ''.jpg''"
proof -
  from assms(1) obtain stem where u: "url = stem @ ''.png''"
    by (auto simp: suffix_def)
  have only: "\<forall>ps ss. stem @ ''.png'' = ps @ ''.png'' @ ss \<longrightarrow> ss = []"
  proof (intro allI impI, rule ccontr)
    fix ps ss
    assume e: "stem @ ''.png'' = ps @ ''.png'' @ ss" and "ss \<noteq> []"
    then have "butlast url = ps @ ''.png'' @ butlast ss"
      by (simp add: u butlast_append)
    then have "sublist ''.png'' (butlast url)"
      by (auto simp: sublist_def)
    with assms(2) show False by simp
  qed
  have "take (length url - 4) url = stem" by (simp add: u)
  with str_replace_trailing [OF only] u show ?thesis by simp
qed

text \<open>
  Where the program's tests agree with the host and the path of the URL: a host written
  in lower case, and a path that the URL ends with.
\<close>

lemma spec_after_scheme_suffix: "spec_after_scheme url = Some r \<Longrightarrow> suffix r url"
proof (induction url)
  case Nil
  then show ?case by simp
next
  case (Cons c s)
  show ?case
  proof (cases "prefix ''://'' (c # s)")
    case True
    with Cons.prems have "r = drop 3 (c # s)"
      by (simp only: spec_after_scheme.simps if_True option.inject)
    then show ?thesis by (simp only: suffix_drop)
  next
    case False
    with Cons.prems have "spec_after_scheme s = Some r"
      by (simp only: spec_after_scheme.simps if_False)
    then have "suffix r s" by (rule Cons.IH)
    then show ?thesis by (rule suffix_ConsI)
  qed
qed

lemma spec_url_parts:
  "\<exists>pre. url = pre @ spec_url_host url @ spec_url_rest url"
proof -
  have "suffix (spec_url_hier url) url"
    by (auto simp: spec_url_hier_def split: option.splits dest: spec_after_scheme_suffix)
  then obtain pre where "url = pre @ spec_url_hier url"
    by (auto simp: suffix_def)
  moreover have "spec_url_hier url = spec_url_host url @ spec_url_rest url"
    by (simp add: spec_url_host_def spec_url_rest_def)
  ultimately show ?thesis by auto
qed

lemma lower_case_image_host:
  assumes "spec_on_image_host url"
    and "map ascii_lower (spec_url_host url) = spec_url_host url"
  shows "sublist ''imgur.com'' url"
proof -
  from assms have "spec_url_host url = ''imgur.com'' \<or> suffix ''.imgur.com'' (spec_url_host url)"
    by (simp add: spec_on_image_host_def)
  then obtain x where h: "spec_url_host url = x @ ''imgur.com''"
  proof
    assume "spec_url_host url = ''imgur.com''"
    then have "spec_url_host url = [] @ ''imgur.com''" by simp
    then show ?thesis by (rule that)
  next
    assume "suffix ''.imgur.com'' (spec_url_host url)"
    then obtain y where "spec_url_host url = y @ ''.imgur.com''"
      by (auto simp: suffix_def)
    then have "spec_url_host url = (y @ ''.'') @ ''imgur.com''" by simp
    then show ?thesis by (rule that)
  qed
  from spec_url_parts [of url] obtain pre
    where "url = pre @ spec_url_host url @ spec_url_rest url" by blast
  with h have "url = (pre @ x) @ ''imgur.com'' @ spec_url_rest url" by simp
  then show ?thesis unfolding sublist_def by blast
qed

lemma basename_of_suffix:
  assumes "suffix r url" and "CHR ''/'' \<in> set r"
  shows "basename url = basename r"
proof -
  from assms(1) obtain x where u: "url = x @ r" by (auto simp: suffix_def)
  from assms(2) have "takeWhile (\<lambda>c. c \<noteq> CHR ''/'') (rev r @ rev x) =
      takeWhile (\<lambda>c. c \<noteq> CHR ''/'') (rev r)"
    by (intro takeWhile_append1 [of "CHR ''/''"]) auto
  then show ?thesis by (simp add: basename_def u)
qed

lemma basename_of_path:
  assumes "spec_url_path url = spec_url_rest url" and "spec_url_path url \<noteq> []"
  shows "basename url = basename (spec_url_path url)"
proof -
  let ?rest = "spec_url_rest url"
  from assms have ne: "?rest \<noteq> []" by simp
  then have "\<not> hd ?rest \<notin> set ''/?#''"
    unfolding spec_url_rest_def by (rule hd_dropWhile)
  moreover from assms(1) have "\<forall>c \<in> set ?rest. c \<notin> set ''?#''"
    by (simp add: spec_url_path_def takeWhile_eq_all_conv)
  with ne have "hd ?rest \<notin> set ''?#''" by simp
  ultimately have "hd ?rest = CHR ''/''" by auto
  with ne have slash: "CHR ''/'' \<in> set ?rest"
    by (metis hd_in_set)
  from spec_url_parts [of url] have "suffix ?rest url"
    by (metis append.assoc suffixI)
  from basename_of_suffix [OF this slash] assms(1) show ?thesis by simp
qed

lemma no_dot_no_extension:
  assumes "CHR ''.'' \<notin> set (basename url)"
  shows "snd (splitext (basename url)) = []" and "\<not> suffix ''.png'' url"
proof -
  from assms show "snd (splitext (basename url)) = []"
    unfolding splitext_def basename_idem Let_def by simp
  show "\<not> suffix ''.png'' url"
  proof
    assume "suffix ''.png'' url"
    then have "suffix ''.png'' (basename url)" by (rule suffix_basename) simp
    then obtain y where "basename url = y @ ''.png''" by (auto simp: suffix_def)
    with assms show False by simp
  qed
qed

text \<open>
  C2, as stated, fails in each of its parts. A URL of the image host that ends in
  \<open>.jpg\<close> is not returned unchanged when its last segment is the extension alone. One
  that ends in \<open>.png\<close> is returned unchanged when its host is written in upper case,
  and has \<open>.png\<close> rewritten elsewhere too when the text occurs twice. One whose path
  has no extension is returned unchanged when a query with a dot follows the path, or
  when it has no path. And one that is not a gallery link is fetched as an album when
  \<open>imgur.com/a/\<close> occurs further down its path.
\<close>

theorem image_host_rules_counterexample:
  "spec_on_image_host ''http://i.imgur.com/.jpg'' \<and>
   \<not> spec_is_gallery ''http://i.imgur.com/.jpg'' \<and>
   suffix ''.jpg'' ''http://i.imgur.com/.jpg'' \<and>
   extractUrls no_network ''http://i.imgur.com/.jpg'' = Inr [''http://i.imgur.com/.jpg.jpg''] \<and>
   spec_on_image_host ''http://I.IMGUR.COM/x.png'' \<and>
   \<not> spec_is_gallery ''http://I.IMGUR.COM/x.png'' \<and>
   suffix ''.png'' ''http://I.IMGUR.COM/x.png'' \<and>
   extractUrls no_network ''http://I.IMGUR.COM/x.png'' = Inr [''http://I.IMGUR.COM/x.png''] \<and>
   spec_on_image_host ''http://i.imgur.com/my.pngs/x.png'' \<and>
   \<not> spec_is_gallery ''http://i.imgur.com/my.pngs/x.png'' \<and>
   suffix ''.png'' ''http://i.imgur.com/my.pngs/x.png'' \<and>
   extractUrls no_network ''http://i.imgur.com/my.pngs/x.png'' =
     Inr [''http://i.imgur.com/my.jpgs/x.jpg''] \<and>
   spec_on_image_host ''http://i.imgur.com/abc?size=1.5'' \<and>
   \<not> spec_is_gallery ''http://i.imgur.com/abc?size=1.5'' \<and>
   \<not> spec_path_has_extension ''http://i.imgur.com/abc?size=1.5'' \<and>
   extractUrls no_network ''http://i.imgur.com/abc?size=1.5'' =
     Inr [''http://i.imgur.com/abc?size=1.5''] \<and>
   spec_on_image_host ''http://imgur.com'' \<and>
   \<not> spec_is_gallery ''http://imgur.com'' \<and>
   \<not> spec_path_has_extension ''http://imgur.com'' \<and>
   extractUrls no_network ''http://imgur.com'' = Inr [''http://imgur.com''] \<and>
   spec_on_image_host ''http://i.imgur.com/imgur.com/a/x.gif'' \<and>
   \<not> spec_is_gallery ''http://i.imgur.com/imgur.com/a/x.gif'' \<and>
   suffix ''.gif'' ''http://i.imgur.com/imgur.com/a/x.gif'' \<and>
   extractUrls no_network ''http://i.imgur.com/imgur.com/a/x.gif'' = Inl URLError"
  by code_simp

text \<open>
  C2, amended: for every URL on the image-host domain whose host is written in lower
  case and in which the text \<open>imgur.com/a/\<close> does not occur, the Link Resolver returns
  a singleton. If the URL ends in \<open>.png\<close> and \<open>.png\<close> occurs nowhere else in it, the
  result is the same URL with \<open>.jpg\<close> substituted for \<open>.png\<close>. If the URL ends with
  its path, the path is not empty and has no file extension, the result is the URL with
  \<open>.jpg\<close> appended. If the URL already ends in \<open>.jpg\<close>, \<open>.jpeg\<close> or \<open>.gif\<close> and
  its last segment has a character other than a dot before that extension, the result
  is the URL unchanged.
\<close>

theorem imgur_direct_link:
  assumes "spec_on_image_host url"
    and "map ascii_lower (spec_url_host url) = spec_url_host url"
    and "\<not> sublist ''imgur.com/a/'' url"
  shows "(\<exists>u. extractUrls urlopen url = Inr [u]) \<and>
         (suffix ''.png'' url \<and> \<not> sublist ''.png'' (butlast url) \<longrightarrow>
            extractUrls urlopen url = Inr [take (length url - 4) url @ ''.jpg'']) \<and>
         (spec_url_path url = spec_url_rest url \<and> spec_url_path url \<noteq> [] \<and>
          \<not> spec_path_has_extension url \<longrightarrow>
            extractUrls urlopen url = Inr [url @ ''.jpg'']) \<and>
         (\<forall>ext \<in> {''.jpg'', ''.jpeg'', ''.gif''}.
            suffix ext url \<and>
            list_ex (\<lambda>c. c \<noteq> CHR ''.'')
              (take (length (basename url) - length ext) (basename url)) \<longrightarrow>
            extractUrls urlopen url = Inr [url])"
proof -
  from assms(1,2) have host: "sublist ''imgur.com'' url"
    by (rule lower_case_image_host)
  have single: "\<exists>u. extractUrls urlopen url = Inr [u]"
    using host assms(3)
    by (simp add: extractUrls_def processImgurUrl_def case_prod_beta)
  have png: "extractUrls urlopen url = Inr [take (length url - 4) url @ ''.jpg'']"
    if "suffix ''.png'' url \<and> \<not> sublist ''.png'' (butlast url)"
  proof -
    from that have "str_replace ''.png'' ''.jpg'' url = take (length url - 4) url @ ''.jpg''"
      using str_replace_png_at_end by blast
    with that host assms(3) show ?thesis
      by (simp add: extractUrls_def processImgurUrl_def)
  qed
  have noext: "extractUrls urlopen url = Inr [url @ ''.jpg'']"
    if "spec_url_path url = spec_url_rest url \<and> spec_url_path url \<noteq> [] \<and>
        \<not> spec_path_has_extension url"
  proof -
    from that have "basename url = basename (spec_url_path url)"
      using basename_of_path by blast
    with that have "CHR ''.'' \<notin> set (basename url)"
      by (auto simp: spec_path_has_extension_def)
    from no_dot_no_extension [OF this] host assms(3) show ?thesis
      by (simp add: extractUrls_def processImgurUrl_def case_prod_beta)
  qed
  have kept: "extractUrls urlopen url = Inr [url]"
    if ext: "ext \<in> {''.jpg'', ''.jpeg'', ''.gif''}"
      and s: "suffix ext url \<and>
            list_ex (\<lambda>c. c \<noteq> CHR ''.'')
              (take (length (basename url) - length ext) (basename url))"
    for ext
  proof -
    from s ext have np: "\<not> suffix ''.png'' url" using not_png by blast
    from ext obtain e where e: "ext = CHR ''.'' # e" "CHR ''.'' \<notin> set e" "CHR ''/'' \<notin> set e"
      by auto
    from s have "suffix (CHR ''.'' # e) url" by (simp add: e(1))
    from imgur_extension [OF this e(2,3)] s e(1)
    have "snd (splitext (basename url)) = ext" by simp
    with e(1) have "snd (splitext (basename url)) \<noteq> []" by simp
    with host assms(3) np show ?thesis
      by (simp add: extractUrls_def processImgurUrl_def case_prod_beta)
  qed
  from single png noext kept show ?thesis by blast
qed

theorem imgur_direct_link_witness:
  "spec_on_image_host ''http://i.imgur.com/pic.png'' \<and>
   map ascii_lower (spec_url_host ''http://i.imgur.com/pic.png'') =
     spec_url_host ''http://i.imgur.com/pic.png'' \<and>
   \<not> sublist ''imgur.com/a/'' ''http://i.imgur.com/pic.png'' \<and>
   suffix ''.png'' ''http://i.imgur.com/pic.png'' \<and>
   \<not> sublist ''.png'' (butlast ''http://i.imgur.com/pic.png'') \<and>
   extractUrls no_network ''http://i.imgur.com/pic.png'' = Inr [''http://i.imgur.com/pic.jpg''] \<and>
   spec_on_image_host ''http://imgur.com/gallery/abc'' \<and>
   map ascii_lower (spec_url_host ''http://imgur.com/gallery/abc'') =
     spec_url_host ''http://imgur.com/gallery/abc'' \<and>
   \<not> sublist ''imgur.com/a/'' ''http://imgur.com/gallery/abc'' \<and>
   spec_url_path ''http://imgur.com/gallery/abc'' = spec_url_rest ''http://imgur.com/gallery/abc'' \<and>
   spec_url_path ''http://imgur.com/gallery/abc'' \<noteq> [] \<and>
   \<not> spec_path_has_extension ''http://imgur.com/gallery/abc'' \<and>
   extractUrls no_network ''http://imgur.com/gallery/abc'' =
     Inr [''http://imgur.com/gallery/abc.jpg''] \<and>
   spec_on_image_host ''http://i.imgur.com/pic.gif'' \<and>
   map ascii_lower (spec_url_host ''http://i.imgur.com/pic.gif'') =
     spec_url_host ''http://i.imgur.com/pic.gif'' \<and>
   \<not> sublist ''imgur.com/a/'' ''http://i.imgur.com/pic.gif'' \<and>
   suffix ''.gif'' ''http://i.imgur.com/pic.gif'' \<and>
   list_ex (\<lambda>c. c \<noteq> CHR ''.'')
     (take (length (basename ''http://i.imgur.com/pic.gif'') - length ''.gif'')
        (basename ''http://i.imgur.com/pic.gif'')) \<and>
   extractUrls no_network ''http://i.imgur.com/pic.gif'' = Inr [''http://i.imgur.com/pic.gif'']"
proof -
  have h: "spec_on_image_host ''http://i.imgur.com/pic.png''"
    "map ascii_lower (spec_url_host ''http://i.imgur.com/pic.png'') =
       spec_url_host ''http://i.imgur.com/pic.png''"
    "\<not> sublist ''imgur.com/a/'' ''http://i.imgur.com/pic.png''"
    by code_simp+
  have p: "suffix ''.png'' ''http://i.imgur.com/pic.png''"
    "\<not> sublist ''.png'' (butlast ''http://i.imgur.com/pic.png'')"
    by code_simp+
  have r: "take (length ''http://i.imgur.com/pic.png'' - 4) ''http://i.imgur.com/pic.png'' @ ''.jpg'' =
             ''http://i.imgur.com/pic.jpg''"
    by simp
  from imgur_direct_link [OF h, of no_network] p r
  have one: "extractUrls no_network ''http://i.imgur.com/pic.png'' =
          Inr [''http://i.imgur.com/pic.jpg'']"
    by simp
  have g: "spec_on_image_host ''http://imgur.com/gallery/abc''"
    "map ascii_lower (spec_url_host ''http://imgur.com/gallery/abc'') =
       spec_url_host ''http://imgur.com/gallery/abc''"
    "\<not> sublist ''imgur.com/a/'' ''http://imgur.com/gallery/abc''"
    by code_simp+
  have q: "spec_url_path ''http://imgur.com/gallery/abc'' =
       spec_url_rest ''http://imgur.com/gallery/abc''"
    "spec_url_path ''http://imgur.com/gallery/abc'' \<noteq> []"
    "\<not> spec_path_has_extension ''http://imgur.com/gallery/abc''"
    by code_simp+
  from imgur_direct_link [OF g, of no_network] q
  have two: "extractUrls no_network ''http://imgur.com/gallery/abc'' =
     Inr [''http://imgur.com/gallery/abc.jpg'']"
    by simp
  have k: "spec_on_image_host ''http://i.imgur.com/pic.gif''"
    "map ascii_lower (spec_url_host ''http://i.imgur.com/pic.gif'') =
       spec_url_host ''http://i.imgur.com/pic.gif''"
    "\<not> sublist ''imgur.com/a/'' ''http://i.imgur.com/pic.gif''"
    by code_simp+
  have e: "suffix ''.gif'' ''http://i.imgur.com/pic.gif''"
    "list_ex (\<lambda>c. c \<noteq> CHR ''.'')
       (take (length (basename ''http://i.imgur.com/pic.gif'') - length ''.gif'')
          (basename ''http://i.imgur.com/pic.gif''))"
    by code_simp+
  from imgur_direct_link [OF k, of no_network] e
  have three: "extractUrls no_network ''http://i.imgur.com/pic.gif'' =
     Inr [''http://i.imgur.com/pic.gif'']"
    by blast
  from h p one g q two k e three show ?thesis by simp
qed

section \<open>The content fetcher\<close>

text \<open>The five ways through \<open>_downloadFromUrl\<close>.\<close>

lemma downloadFromUrl_cases:
  obtains (transport) err where "urlopen url = Inl err"
      "downloadFromUrl urlopen url destDir fs = (Inl (Transport err), fs)"
  | (wrong_type) response where "urlopen url = Inr response"
      "spec_resolved_type response url \<notin> {Jpeg, Png, Gif}"
      "downloadFromUrl urlopen url destDir fs = (Inl WrongFileTypeException, fs)"
  | (exists) response where "urlopen url = Inr response"
      "spec_resolved_type response url \<in> {Jpeg, Png, Gif}"
      "os_path_exists fs (path_join destDir (basename url))"
      "downloadFromUrl urlopen url destDir fs = (Inl FileExistsException, fs)"
  | (cut) response err where "urlopen url = Inr response"
      "spec_resolved_type response url \<in> {Jpeg, Png, Gif}"
      "\<not> os_path_exists fs (path_join destDir (basename url))"
      "read response = Inl err"
      "downloadFromUrl urlopen url destDir fs = (Inl (Transport err), fs)"
  | (written) response filedata where "urlopen url = Inr response"
      "spec_resolved_type response url \<in> {Jpeg, Png, Gif}"
      "\<not> os_path_exists fs (path_join destDir (basename url))"
      "read response = Inr filedata"
      "downloadFromUrl urlopen url destDir fs =
         (Inr (path_join destDir (basename url)),
          fs(path_join destDir (basename url) \<mapsto> File filedata))"
proof (cases "urlopen url")
  case (Inl err)
  then have "downloadFromUrl urlopen url destDir fs = (Inl (Transport err), fs)"
    by (simp add: downloadFromUrl_def)
  with Inl show ?thesis by (rule transport)
next
  case (Inr response)
  show ?thesis
  proof (cases "spec_resolved_type response url \<in> {Jpeg, Png, Gif}")
    case False
    with Inr have "downloadFromUrl urlopen url destDir fs = (Inl WrongFileTypeException, fs)"
      by (simp add: downloadFromUrl_def spec_resolved_type_def split: option.splits if_splits)
    with Inr False show ?thesis by (rule wrong_type)
  next
    case True
    then have ok: "(case info response ''content-type'' of
                    Some ct \<Rightarrow> ct
                  | None \<Rightarrow>
                      if suffix ''.jpg'' url \<or> suffix ''.jpeg'' url then ''image/jpeg''
                      else if suffix ''.png'' url then ''image/png''
                      else if suffix ''.gif'' url then ''image/gif''
                      else ''unknown'') \<in> set [''image/jpeg'', ''image/png'', ''image/gif'']"
      by (simp add: spec_resolved_type_def split: option.splits if_splits)
    show ?thesis
    proof (cases "os_path_exists fs (path_join destDir (basename url))")
      case e: True
      with Inr ok have "downloadFromUrl urlopen url destDir fs = (Inl FileExistsException, fs)"
        unfolding downloadFromUrl_def Let_def by simp
      with Inr True e show ?thesis by (rule exists)
    next
      case e: False
      show ?thesis
      proof (cases "read response")
        case rd: (Inl err)
        with Inr ok e have "downloadFromUrl urlopen url destDir fs = (Inl (Transport err), fs)"
          unfolding downloadFromUrl_def Let_def by simp
        with Inr True e rd show ?thesis by (rule cut)
      next
        case rd: (Inr filedata)
        with Inr ok e have "downloadFromUrl urlopen url destDir fs =
           (Inr (path_join destDir (basename url)),
            fs(path_join destDir (basename url) \<mapsto> File filedata))"
          unfolding downloadFromUrl_def Let_def by simp
        with Inr True e rd show ?thesis by (rule written)
      qed
    qed
  qed
qed

text \<open>
  C5: given a response, \<open>_downloadFromUrl\<close> raises \<open>WrongFileTypeException\<close> if
  and only if the resolved type, taken from the content-type header when there is one, else
  from the extension of the URL, else unknown, is not jpeg, png or gif.
\<close>

theorem wrong_type_iff:
  assumes "urlopen url = Inr response"
  shows "fst (downloadFromUrl urlopen url destDir fs) = Inl WrongFileTypeException \<longleftrightarrow>
         spec_resolved_type response url \<notin> {Jpeg, Png, Gif}"
  using assms by (cases rule: downloadFromUrl_cases [of urlopen url destDir fs]) auto

theorem wrong_type_iff_witness:
  "example_net ''http://example.com/pic.png'' = Inr png_response \<and>
   spec_resolved_type png_response ''http://example.com/pic.png'' = Png \<and>
   fst (downloadFromUrl example_net ''http://example.com/pic.png'' ''pics'' Map.empty)
     \<noteq> Inl WrongFileTypeException"
proof -
  have h: "example_net ''http://example.com/pic.png'' = Inr png_response"
    by (simp add: example_net_def)
  have t: "spec_resolved_type png_response ''http://example.com/pic.png'' = Png"
    by (simp add: spec_resolved_type_def png_response_def)
  from wrong_type_iff [of example_net "''http://example.com/pic.png''" png_response, OF h] t h
  show ?thesis by simp
qed

text \<open>
  C9: when a call of \<open>_downloadFromUrl\<close> returns a filename, a second call with the
  same URL and destination, in the file system the first call left, raises
  \<open>FileExistsException\<close>.
\<close>

theorem second_download_exists:
  assumes "downloadFromUrl urlopen url destDir fs = (Inr filename, fs')"
  shows "downloadFromUrl urlopen url destDir fs' = (Inl FileExistsException, fs')"
proof -
  from assms obtain response filedata where r: "urlopen url = Inr response"
    and t: "spec_resolved_type response url \<in> {Jpeg, Png, Gif}"
    and f: "fs' = fs(path_join destDir (basename url) \<mapsto> File filedata)"
    by (cases rule: downloadFromUrl_cases [of urlopen url destDir fs]) auto
  from f have e: "os_path_exists fs' (path_join destDir (basename url))"
    by (simp add: os_path_exists_def)
  from r t e show ?thesis
    by (cases rule: downloadFromUrl_cases [of urlopen url destDir fs']) auto
qed

theorem second_download_exists_witness:
  "downloadFromUrl example_net ''http://example.com/raw.gif'' ''pics'' Map.empty =
     (Inr ''pics/raw.gif'', [''pics/raw.gif'' \<mapsto> File ''GIF data'']) \<and>
   downloadFromUrl example_net ''http://example.com/raw.gif'' ''pics''
       [''pics/raw.gif'' \<mapsto> File ''GIF data''] =
     (Inl FileExistsException, [''pics/raw.gif'' \<mapsto> File ''GIF data''])"
proof -
  have h: "downloadFromUrl example_net ''http://example.com/raw.gif'' ''pics'' Map.empty =
     (Inr ''pics/raw.gif'', [''pics/raw.gif'' \<mapsto> File ''GIF data''])"
    by (simp add: downloadFromUrl_def example_net_def os_path_exists_def path_join_def
        basename_def suffix_to_prefix Let_def)
  from second_download_exists [OF h] h show ?thesis by blast
qed

text \<open>
  C10: when \<open>_downloadFromUrl\<close> raises \<open>WrongFileTypeException\<close> or
  \<open>FileExistsException\<close>, the file system it leaves is the one it found.
\<close>

theorem rejected_download_writes_nothing:
  assumes "fst (downloadFromUrl urlopen url destDir fs) = Inl WrongFileTypeException \<or>
           fst (downloadFromUrl urlopen url destDir fs) = Inl FileExistsException"
  shows "snd (downloadFromUrl urlopen url destDir fs) = fs"
  using assms by (cases rule: downloadFromUrl_cases [of urlopen url destDir fs]) auto

theorem rejected_download_writes_nothing_witness:
  "fst (downloadFromUrl example_net ''http://imgur.com/a/xyz'' ''pics'' Map.empty) =
     Inl WrongFileTypeException \<and>
   snd (downloadFromUrl example_net ''http://imgur.com/a/xyz'' ''pics'' Map.empty) = Map.empty"
proof -
  have h: "fst (downloadFromUrl example_net ''http://imgur.com/a/xyz'' ''pics'' Map.empty) =
     Inl WrongFileTypeException"
    by (simp add: downloadFromUrl_def example_net_def album_page_def)
  from rejected_download_writes_nothing [of example_net "''http://imgur.com/a/xyz''" "''pics''" Map.empty] h
  show ?thesis by blast
qed

section \<open>The feed walker\<close>

lemma for_urls_keeps:
  assumes "for_urls a w urls s = Inr s'"
  shows "post s' = post s"
  using assms
proof (induction urls arbitrary: s)
  case Nil
  then show ?case by simp
next
  case (Cons url urls)
  obtain r fs where d: "downloadFromUrl (urllib2_urlopen w) url (args_dir a) (files s) = (r, fs)"
    by (cases "downloadFromUrl (urllib2_urlopen w) url (args_dir a) (files s)")
  show ?case
  proof (cases r)
    case (Inr filename)
    with Cons.prems d show ?thesis
      by (auto simp: Let_def split: if_splits dest: Cons.IH)
  next
    case (Inl e)
    with Cons.prems d show ?thesis
      by (cases e) (auto simp: Let_def split: if_splits dest: Cons.IH)
  qed
qed

lemma for_posts_post:
  assumes "for_posts a w postings s = Inr s'" and "postings \<noteq> []" and "\<not> bFinished s'"
  shows "post s' = Some (last postings)"
  using assms
proof (induction postings arbitrary: s)
  case Nil
  then show ?case by simp
next
  case (Cons p postings)
  show ?case
  proof (cases "postings = []")
    case True
    with Cons.prems show ?thesis
      by (auto simp: Let_def split: if_splits sum.splits dest: for_urls_keeps)
  next
    case False
    with Cons.prems Cons.IH show ?thesis
      by (auto simp: Let_def split: if_splits sum.splits)
  qed
qed

lemma for_posts_all_rejected:
  assumes "list_all (rejected a w) postings" and "postings \<noteq> []"
  shows "\<exists>s'. for_posts a w postings s = Inr s' \<and> post s' = Some (last postings) \<and>
              bFinished s' = bFinished s"
  using assms
proof (induction postings arbitrary: s)
  case Nil
  then show ?case by simp
next
  case (Cons p postings)
  show ?case
  proof (cases "postings = []")
    case True
    with Cons.prems show ?thesis by (simp add: Let_def)
  next
    case False
    with Cons.prems have rest: "list_all (rejected a w) postings" by simp
    let ?s1 = "s\<lparr>post := Some p, nTotal := nTotal s + 1,
                 trace := trace s @ [EvPost (post_id p)]\<rparr>"
    from Cons.IH [OF rest False,
        of "?s1\<lparr>nSkipped := nSkipped ?s1 + 1,
                 trace := trace ?s1 @ [EvFiltered (post_id p)]\<rparr>"]
      Cons.prems False
    show ?thesis by (simp add: Let_def)
  qed
qed

text \<open>
  C4, as stated: after every non-empty page the cursor is the id of the last item of the
  page. With \<open>--num 1\<close> and a page of two items the run stops at the first, and the
  cursor is the id of the first.
\<close>

theorem cursor_after_stop_counterexample:
  "two_page \<noteq> [] \<and>
   \<not> isl (process_page num1_args (feed_world two_page) two_page
            (init_state num1_args Map.empty)) \<and>
   lastId (final_state (process_page num1_args (feed_world two_page) two_page
            (init_state num1_args Map.empty))) \<noteq> post_id (last two_page)"
  by code_simp

text \<open>
  C4, amended: after a non-empty page during which the run was not stopped, the cursor is
  the id of the last item of the page; in particular when every item of the page was
  rejected by the filters, which neither stops the run nor raises.
\<close>

theorem cursor_after_page:
  assumes "postings \<noteq> []"
  shows "(\<forall>s'. process_page a w postings s = Inr s' \<and> \<not> bFinished s' \<longrightarrow>
              lastId s' = post_id (last postings)) \<and>
         (list_all (rejected a w) postings \<longrightarrow>
            (\<exists>s'. process_page a w postings s = Inr s' \<and>
                  lastId s' = post_id (last postings) \<and> bFinished s' = bFinished s))"
proof (intro conjI allI impI)
  fix s'
  assume h: "process_page a w postings s = Inr s' \<and> \<not> bFinished s'"
  then obtain s1 where f: "for_posts a w postings s = Inr s1"
    by (auto simp: process_page_def split: sum.splits)
  from h f have "\<not> bFinished s1"
    by (auto simp: process_page_def split: option.splits)
  from for_posts_post [OF f assms this] h f show "lastId s' = post_id (last postings)"
    by (auto simp: process_page_def)
next
  assume "list_all (rejected a w) postings"
  from for_posts_all_rejected [OF this assms, of s]
  show "\<exists>s'. process_page a w postings s = Inr s' \<and>
                  lastId s' = post_id (last postings) \<and> bFinished s' = bFinished s"
    by (auto simp: process_page_def)
qed

theorem cursor_after_page_witness:
  "feed_page \<noteq> [] \<and>
   list_all (rejected score_args (feed_world feed_page)) feed_page \<and>
   lastId (final_state (process_page score_args (feed_world feed_page) feed_page
            (init_state score_args Map.empty))) = ''t4''"
proof -
  have ne: "feed_page \<noteq> []" by (simp add: feed_page_def)
  have rej: "list_all (rejected score_args (feed_world feed_page)) feed_page"
    by code_simp
  have l: "post_id (last feed_page) = ''t4''" by code_simp
  from cursor_after_page [OF ne, of score_args "feed_world feed_page"
      "init_state score_args Map.empty"] rej
  obtain s' where "process_page score_args (feed_world feed_page) feed_page
            (init_state score_args Map.empty) = Inr s'"
    and "lastId s' = post_id (last feed_page)"
    by blast
  with ne rej l show ?thesis by (simp add: final_state_def)
qed

subsection \<open>The invariant of the main loop\<close>

lemma quiet_prefix: "quiet a (xs @ ys) \<Longrightarrow> quiet a xs"
  by (auto simp: quiet_def count_events_def add_nonneg_eq_0_iff)

lemma quiet_other:
  assumes "quiet a tr" and "\<not> is_downloaded ev" and "\<not> is_exists ev"
  shows "quiet a (tr @ [ev])"
  using assms by (simp add: quiet_def count_events_def)

lemma quiet_downloaded:
  assumes "quiet a tr"
    and "\<not> (0 < args_num a \<and> args_num a \<le> count_events is_downloaded tr + 1)"
  shows "quiet a (tr @ [EvFetch url (Inr filename)])"
  using assms by (auto simp: quiet_def count_events_def)

lemma quiet_exists:
  assumes "quiet a tr" and "\<not> args_update a"
  shows "quiet a (tr @ [EvFetch url (Inl FileExistsException)])"
  using assms by (auto simp: quiet_def count_events_def)

lemma run_inv_step:
  assumes "run_inv a s" and "\<not> bFinished s"
    and "trace s' = trace s @ [ev]"
    and "bFinished s' \<or> quiet a (trace s @ [ev])"
    and "nTotal s' = nTotal s + (if is_post ev then 1 else 0)"
    and "nDownloaded s' = nDownloaded s + (if is_downloaded ev then 1 else 0)"
    and "nErrors s' = nErrors s + (if is_exists ev then 1 else 0)"
    and "nSkipped s' = nSkipped s + (if is_skipped ev then 1 else 0)"
    and "nFailed s' = nFailed s + (if is_failed ev then 1 else 0)"
  shows "run_inv a s'"
proof -
  from assms(1,2) have q: "quiet a (trace s)" by (simp add: run_inv_def)
  from assms(3) have b: "butlast (trace s') = trace s" by simp
  from assms(1) have c: "nTotal s = count_events is_post (trace s)"
    "nDownloaded s = count_events is_downloaded (trace s)"
    "nErrors s = count_events is_exists (trace s)"
    "nSkipped s = count_events is_skipped (trace s)"
    "nFailed s = count_events is_failed (trace s)"
    by (simp_all add: run_inv_def)
  have n: "count_events P (trace s @ [ev]) = count_events P (trace s) + (if P ev then 1 else 0)"
    for P by (simp add: count_events_def)
  show ?thesis
    unfolding run_inv_def b assms(3) n
    using q assms(4) assms(3) c assms(5-9) by auto
qed

lemma for_urls_inv:
  assumes "run_inv a s" and "\<not> bFinished s"
  shows "run_inv a (final_state (for_urls a w urls s)) \<and>
         (isl (for_urls a w urls s) \<longrightarrow> \<not> bFinished (final_state (for_urls a w urls s)))"
  using assms
proof (induction urls arbitrary: s)
  case Nil
  then show ?case by (simp add: final_state_def)
next
  case (Cons url urls)
  from Cons.prems have q: "quiet a (trace s)"
    and nd: "nDownloaded s = count_events is_downloaded (trace s)"
    by (simp_all add: run_inv_def)
  obtain r fs where d: "downloadFromUrl (urllib2_urlopen w) url (args_dir a) (files s) = (r, fs)"
    by (cases "downloadFromUrl (urllib2_urlopen w) url (args_dir a) (files s)")
  show ?case
  proof (cases r)
    case (Inr filename)
    let ?s1 = "s\<lparr>files := fs, trace := trace s @ [EvFetch url (Inr filename)],
                   nDownloaded := nDownloaded s + 1\<rparr>"
    show ?thesis
    proof (cases "0 < args_num a \<and> args_num a \<le> nDownloaded s + 1")
      case True
      have "run_inv a (?s1\<lparr>bFinished := True\<rparr>)"
        by (rule run_inv_step [OF Cons.prems, where ev = "EvFetch url (Inr filename)"]) simp_all
      moreover from d Inr True
      have "for_urls a w (url # urls) s = Inr (?s1\<lparr>bFinished := True\<rparr>)"
        by (simp add: Let_def)
      ultimately show ?thesis by (simp add: final_state_def)
    next
      case False
      with q nd have "quiet a (trace s @ [EvFetch url (Inr filename)])"
        by (intro quiet_downloaded) simp_all
      then have i: "run_inv a ?s1"
        by (intro run_inv_step [OF Cons.prems, where ev = "EvFetch url (Inr filename)"]) simp_all
      have b: "\<not> bFinished ?s1" using Cons.prems by simp
      from d Inr False have "for_urls a w (url # urls) s = for_urls a w urls ?s1"
        by (auto simp: Let_def)
      with Cons.IH [OF i b] show ?thesis by simp
    qed
  next
    case (Inl e)
    show ?thesis
    proof (cases e)
      case WrongFileTypeException
      let ?ev = "EvFetch url (Inl WrongFileTypeException)"
      let ?s1 = "s\<lparr>files := fs, trace := trace s @ [?ev], nSkipped := nSkipped s + 1\<rparr>"
      from q have "quiet a (trace s @ [?ev])" by (intro quiet_other) simp_all
      then have i: "run_inv a ?s1"
        by (intro run_inv_step [OF Cons.prems, where ev = ?ev]) simp_all
      have b: "\<not> bFinished ?s1" using Cons.prems by simp
      from d Inl WrongFileTypeException
      have "for_urls a w (url # urls) s = for_urls a w urls ?s1" by simp
      with Cons.IH [OF i b] show ?thesis by simp
    next
      case FileExistsException
      let ?ev = "EvFetch url (Inl FileExistsException)"
      let ?s1 = "s\<lparr>files := fs, trace := trace s @ [?ev], nErrors := nErrors s + 1\<rparr>"
      show ?thesis
      proof (cases "args_update a")
        case True
        have "run_inv a (?s1\<lparr>bFinished := True\<rparr>)"
          by (rule run_inv_step [OF Cons.prems, where ev = ?ev]) simp_all
        moreover from d Inl FileExistsException True
        have "for_urls a w (url # urls) s = Inr (?s1\<lparr>bFinished := True\<rparr>)"
          by (simp add: Let_def)
        ultimately show ?thesis by (simp add: final_state_def)
      next
        case False
        with q have "quiet a (trace s @ [?ev])" by (intro quiet_exists) simp_all
        then have i: "run_inv a ?s1"
          by (intro run_inv_step [OF Cons.prems, where ev = ?ev]) simp_all
        have b: "\<not> bFinished ?s1" using Cons.prems by simp
        from d Inl FileExistsException False
        have "for_urls a w (url # urls) s = for_urls a w urls ?s1"
          by (simp add: Let_def)
        with Cons.IH [OF i b] show ?thesis by simp
      qed
    next
      case (Transport err)
      let ?ev = "EvFetch url (Inl (Transport err))"
      let ?s1 = "s\<lparr>files := fs, trace := trace s @ [?ev]\<rparr>"
      from q have qe: "quiet a (trace s @ [?ev])" by (intro quiet_other) simp_all
      show ?thesis
      proof (cases "caught err")
        case True
        let ?s2 = "?s1\<lparr>nFailed := nFailed ?s1 + 1\<rparr>"
        from qe True have i: "run_inv a ?s2"
          by (intro run_inv_step [OF Cons.prems, where ev = ?ev]) simp_all
        have b: "\<not> bFinished ?s2" using Cons.prems by simp
        from d Inl Transport True
        have "for_urls a w (url # urls) s = for_urls a w urls ?s2"
          by (simp add: Let_def)
        with Cons.IH [OF i b] show ?thesis by simp
      next
        case False
        with qe have i: "run_inv a ?s1"
          by (intro run_inv_step [OF Cons.prems, where ev = ?ev]) simp_all
        have b: "\<not> bFinished ?s1" using Cons.prems by simp
        from d Inl Transport False
        have "for_urls a w (url # urls) s = Inl (err, ?s1)"
          by (simp add: Let_def)
        with i b show ?thesis by (simp add: final_state_def)
      qed
    qed
  qed
qed

lemma for_posts_inv:
  assumes "run_inv a s" and "\<not> bFinished s"
  shows "run_inv a (final_state (for_posts a w postings s)) \<and>
         (isl (for_posts a w postings s) \<longrightarrow> \<not> bFinished (final_state (for_posts a w postings s)))"
  using assms
proof (induction postings arbitrary: s)
  case Nil
  then show ?case by (simp add: final_state_def)
next
  case (Cons p postings)
  from Cons.prems have q: "quiet a (trace s)" by (simp add: run_inv_def)
  let ?s1 = "s\<lparr>post := Some p, nTotal := nTotal s + 1,
                 trace := trace s @ [EvPost (post_id p)]\<rparr>"
  from q have q1: "quiet a (trace s @ [EvPost (post_id p)])"
    by (intro quiet_other) simp_all
  then have i1: "run_inv a ?s1"
    by (intro run_inv_step [OF Cons.prems, where ev = "EvPost (post_id p)"]) simp_all
  have b1: "\<not> bFinished ?s1" using Cons.prems by simp
  show ?case
  proof (cases "rejected a w p")
    case True
    let ?s2 = "?s1\<lparr>nSkipped := nSkipped ?s1 + 1,
                   trace := trace ?s1 @ [EvFiltered (post_id p)]\<rparr>"
    from q1 have "quiet a (trace ?s1 @ [EvFiltered (post_id p)])"
      by (intro quiet_other) simp_all
    then have i2: "run_inv a ?s2"
      by (intro run_inv_step [OF i1 b1, where ev = "EvFiltered (post_id p)"]) simp_all
    have b2: "\<not> bFinished ?s2" using Cons.prems by simp
    from True have "for_posts a w (p # postings) s = for_posts a w postings ?s2"
      by (simp add: Let_def)
    with Cons.IH [OF i2 b2] show ?thesis by simp
  next
    case False
    let ?s2 = "?s1\<lparr>trace := trace ?s1 @ [EvResolve (post_url p)]\<rparr>"
    from q1 have "quiet a (trace ?s1 @ [EvResolve (post_url p)])"
      by (intro quiet_other) simp_all
    then have i2: "run_inv a ?s2"
      by (intro run_inv_step [OF i1 b1, where ev = "EvResolve (post_url p)"]) simp_all
    have b2: "\<not> bFinished ?s2" using Cons.prems by simp
    show ?thesis
    proof (cases "extractUrls (urllib2_urlopen w) (post_url p)")
      case (Inl err)
      with False have "for_posts a w (p # postings) s = Inl (err, ?s2)"
        by (simp add: Let_def)
      with i2 b2 show ?thesis by (simp add: final_state_def)
    next
      case (Inr urls)
      note fu = for_urls_inv [OF i2 b2, of w urls]
      show ?thesis
      proof (cases "for_urls a w urls ?s2")
        case x: (Inl x)
        with False Inr have "for_posts a w (p # postings) s = Inl x"
          by (simp add: Let_def)
        with fu x show ?thesis by simp
      next
        case s3: (Inr s3)
        with fu have i3: "run_inv a s3" by (simp add: final_state_def)
        show ?thesis
        proof (cases "bFinished s3")
          case True
          with False Inr s3 have "for_posts a w (p # postings) s = Inr s3"
            by (simp add: Let_def)
          with i3 show ?thesis by (simp add: final_state_def)
        next
          case b3: False
          with False Inr s3 have "for_posts a w (p # postings) s = for_posts a w postings s3"
            by (simp add: Let_def)
          with Cons.IH [OF i3 b3] show ?thesis by simp
        qed
      qed
    qed
  qed
qed

lemma walk_inv:
  assumes "run_inv a s"
  shows "run_inv a (outcome_state (walk fuel a w s)) \<and>
         (bFinished (outcome_state (walk fuel a w s)) \<longrightarrow> returned (walk fuel a w s))"
  using assms
proof (induction fuel arbitrary: s)
  case 0
  then show ?case by (simp add: walk.simps [of 0])
next
  case (Suc n)
  show ?case
  proof (cases "bFinished s")
    case True
    with Suc.prems show ?thesis by (simp add: walk.simps [of "Suc n"])
  next
    case False
    from Suc.prems False have q: "quiet a (trace s)" by (simp add: run_inv_def)
    let ?s1 = "s\<lparr>trace := trace s @ [EvGetItems (lastId s)]\<rparr>"
    from q have "quiet a (trace s @ [EvGetItems (lastId s)])"
      by (intro quiet_other) simp_all
    then have i1: "run_inv a ?s1"
      by (intro run_inv_step [OF Suc.prems False, where ev = "EvGetItems (lastId s)"]) simp_all
    have b1: "\<not> bFinished ?s1" using False by simp
    show ?thesis
    proof (cases "reddit_getitems w (args_reddit a) (lastId s)")
      case (Inl err)
      with False have "walk (Suc n) a w s = Raised err ?s1"
        by (simp add: walk.simps [of "Suc n"])
      with i1 b1 show ?thesis by simp
    next
      case (Inr postings)
      show ?thesis
      proof (cases "postings = []")
        case True
        with False Inr have "walk (Suc n) a w s = Returned ?s1"
          by (simp add: walk.simps [of "Suc n"])
        with i1 show ?thesis by simp
      next
        case ne: False
        note fp = for_posts_inv [OF i1 b1, of w postings]
        show ?thesis
        proof (cases "for_posts a w postings ?s1")
          case x: (Inl x)
          obtain err s2 where x2: "x = (err, s2)" by (cases x)
          with False Inr ne x have "walk (Suc n) a w s = Raised err s2"
            by (simp add: walk.simps [of "Suc n"] process_page_def)
          with fp x x2 show ?thesis by (simp add: final_state_def)
        next
          case fr: (Inr s2)
          define s3 where "s3 = (case post s2 of None \<Rightarrow> s2 | Some p \<Rightarrow> s2\<lparr>lastId := post_id p\<rparr>)"
          from fp fr have "run_inv a s3"
            by (simp add: s3_def final_state_def run_inv_def split: option.splits)
          moreover from False Inr ne fr have "walk (Suc n) a w s = walk n a w s3"
            by (simp add: walk.simps [of "Suc n"] process_page_def s3_def split: option.splits)
          ultimately show ?thesis using Suc.IH by simp
        qed
      qed
    qed
  qed
qed

lemma init_inv: "run_inv a (init_state a fs)"
  by (simp add: run_inv_def init_state_def quiet_def count_events_def)

text \<open>
  A stopping event is the last of its run: a trace that goes on after an event is quiet
  up to and including that event.
\<close>

lemma stop_is_last:
  assumes "run_inv a s" and "trace s = before @ ev # after" and "\<not> quiet a (before @ [ev])"
  shows "after = []" and "bFinished s"
proof -
  show after: "after = []"
  proof (rule ccontr)
    assume "after \<noteq> []"
    then have "butlast (trace s) = (before @ [ev]) @ butlast after"
      by (simp add: assms(2) butlast_append)
    moreover from assms(1) have "quiet a (butlast (trace s))"
      by (simp add: run_inv_def)
    ultimately have "quiet a ((before @ [ev]) @ butlast after)" by simp
    then have "quiet a (before @ [ev])" by (rule quiet_prefix)
    with assms(3) show False by simp
  qed
  show "bFinished s"
  proof (rule ccontr)
    assume "\<not> bFinished s"
    with assms(1) have "quiet a (trace s)" by (simp add: run_inv_def)
    with assms(2,3) after show False by simp
  qed
qed

lemma returned_iff: "returned r \<longleftrightarrow> r = Returned (outcome_state r)"
  by (cases r) simp_all

text \<open>A run that has left the loop is the same run with more fuel.\<close>

lemma walk_more_fuel:
  assumes "\<forall>s'. walk n a w s \<noteq> Running s'"
  shows "walk (n + k) a w s = walk n a w s"
  using assms
proof (induction n arbitrary: s)
  case 0
  then show ?case
    by (cases k) (auto simp: walk.simps [of 0] walk.simps [of "Suc _"])
next
  case (Suc n)
  show ?case
  proof (cases "bFinished s")
    case True
    then show ?thesis by (simp add: walk.simps [of "Suc _"])
  next
    case False
    let ?s1 = "s\<lparr>trace := trace s @ [EvGetItems (lastId s)]\<rparr>"
    show ?thesis
    proof (cases "reddit_getitems w (args_reddit a) (lastId s)")
      case (Inl err)
      with False show ?thesis by (simp add: walk.simps [of "Suc _"])
    next
      case (Inr postings)
      show ?thesis
      proof (cases "postings = [] \<or> isl (process_page a w postings ?s1)")
        case True
        with False Inr show ?thesis
          by (cases "process_page a w postings ?s1")
            (auto simp: walk.simps [of "Suc _"] Let_def)
      next
        case ne: False
        then obtain s2 where p: "process_page a w postings ?s1 = Inr s2"
          by (cases "process_page a w postings ?s1") auto
        with False Inr ne have e: "walk (Suc m) a w s = walk m a w s2" for m
          by (simp add: walk.simps [of "Suc m"])
        from Suc.prems e [of n] have "\<forall>s'. walk n a w s2 \<noteq> Running s'" by simp
        from Suc.IH [OF this] e [of n] e [of "n + k"] show ?thesis by simp
      qed
    qed
  qed
qed

text \<open>
  C6: when a target count \<open>N > 0\<close> is set and a successful download brings the number
  of downloads to \<open>N\<close>, the run stops there. However far the run is followed (whatever
  the fuel), if that download is in its trace then it is the last event: no further URL
  is fetched, no further item is taken up, filtered or resolved, and no page is
  requested. The program has returned from its loop with \<open>bFinished\<close> set, and its
  counters are those of the events before the stop, with exactly \<open>N\<close> downloads.
\<close>

theorem target_count_stops_run:
  assumes "0 < args_num a"
    and "trace (outcome_state (main fuel a w fs)) =
           before @ EvFetch url (Inr filename) # after"
    and "args_num a \<le> count_events is_downloaded before + 1"
  shows "after = [] \<and>
         main fuel a w fs = Returned (outcome_state (main fuel a w fs)) \<and>
         bFinished (outcome_state (main fuel a w fs)) \<and>
         nDownloaded (outcome_state (main fuel a w fs)) = args_num a \<and>
         nTotal (outcome_state (main fuel a w fs)) = count_events is_post before \<and>
         nSkipped (outcome_state (main fuel a w fs)) = count_events is_skipped before \<and>
         nErrors (outcome_state (main fuel a w fs)) = count_events is_exists before \<and>
         nFailed (outcome_state (main fuel a w fs)) = count_events is_failed before"
proof -
  let ?s = "outcome_state (main fuel a w fs)"
  let ?ev = "EvFetch url (Inr filename)"
  have inv: "run_inv a ?s" and ret: "bFinished ?s \<longrightarrow> returned (main fuel a w fs)"
    using walk_inv [OF init_inv, of a fuel w fs] by (simp_all add: main_def)
  from assms(1,3) have stop: "\<not> quiet a (before @ [?ev])"
    by (simp add: quiet_def count_events_def)
  from stop_is_last [OF inv assms(2) stop] have after: "after = []" and fin: "bFinished ?s"
    by simp_all
  from assms(2) after have tr: "trace ?s = before @ [?ev]" by simp
  with inv have "quiet a before" by (simp add: run_inv_def)
  with assms(1,3) have n: "count_events is_downloaded before + 1 = args_num a"
    by (simp add: quiet_def)
  from inv tr have c: "nDownloaded ?s = count_events is_downloaded before + 1"
    "nTotal ?s = count_events is_post before"
    "nSkipped ?s = count_events is_skipped before"
    "nErrors ?s = count_events is_exists before"
    "nFailed ?s = count_events is_failed before"
    by (simp_all add: run_inv_def count_events_def)
  from ret fin have "main fuel a w fs = Returned ?s" by (simp add: returned_iff)
  with after fin n c show ?thesis by simp
qed

theorem target_count_stops_run_witness:
  "0 < args_num num1_args \<and>
   trace (outcome_state (main 2 num1_args (feed_world two_page) Map.empty)) =
     [EvGetItems [], EvPost ''t1'', EvResolve ''http://example.com/one.jpg''] @
     EvFetch ''http://example.com/one.jpg'' (Inr ''out/one.jpg'') # [] \<and>
   args_num num1_args \<le>
     count_events is_downloaded
       [EvGetItems [], EvPost ''t1'', EvResolve ''http://example.com/one.jpg''] + 1 \<and>
   returned (main 2 num1_args (feed_world two_page) Map.empty) \<and>
   bFinished (outcome_state (main 2 num1_args (feed_world two_page) Map.empty)) \<and>
   nDownloaded (outcome_state (main 2 num1_args (feed_world two_page) Map.empty)) = 1 \<and>
   nTotal (outcome_state (main 2 num1_args (feed_world two_page) Map.empty)) = 1 \<and>
   EvPost ''t2'' \<notin> set (trace (outcome_state (main 2 num1_args (feed_world two_page) Map.empty))) \<and>
   EvResolve ''http://example.com/two.jpg'' \<notin>
     set (trace (outcome_state (main 2 num1_args (feed_world two_page) Map.empty)))"
proof -
  have n: "0 < args_num num1_args" by (simp add: num1_args_def)
  have t: "trace (outcome_state (main 2 num1_args (feed_world two_page) Map.empty)) =
     [EvGetItems [], EvPost ''t1'', EvResolve ''http://example.com/one.jpg''] @
     EvFetch ''http://example.com/one.jpg'' (Inr ''out/one.jpg'') # []"
    by code_simp
  have c: "args_num num1_args \<le>
     count_events is_downloaded
       [EvGetItems [], EvPost ''t1'', EvResolve ''http://example.com/one.jpg''] + 1"
    by (simp add: num1_args_def count_events_def)
  have p: "count_events is_post
       [EvGetItems [], EvPost ''t1'', EvResolve ''http://example.com/one.jpg''] = 1"
    by (simp add: count_events_def)
  have a1: "args_num num1_args = 1" by (simp add: num1_args_def)
  note r = target_count_stops_run [OF n t c]
  from r have "returned (main 2 num1_args (feed_world two_page) Map.empty)"
    by (simp add: returned_iff)
  moreover from r a1 p
  have "bFinished (outcome_state (main 2 num1_args (feed_world two_page) Map.empty))"
    "nDownloaded (outcome_state (main 2 num1_args (feed_world two_page) Map.empty)) = 1"
    "nTotal (outcome_state (main 2 num1_args (feed_world two_page) Map.empty)) = 1"
    by simp_all
  ultimately show ?thesis using n t c by simp
qed

text \<open>
  C7: in update mode the first \<open>FileExistsException\<close> stops the run. However far the
  run is followed, if a download that found its file present is in its trace then it is
  the last event: no further URL is fetched and no further item is taken up, filtered or
  resolved. The program has returned from its loop with \<open>bFinished\<close> set, the duplicate
  counter is one, and the other counters are those of the events before: the downloads
  counted are exactly the successful ones before the duplicate. In the example the
  duplicate is the third URL, and two downloads and three items are counted.
\<close>

theorem update_stops_at_first_duplicate:
  assumes "args_update a"
    and "trace (outcome_state (main fuel a w fs)) =
           before @ EvFetch url (Inl FileExistsException) # after"
  shows "after = [] \<and>
         main fuel a w fs = Returned (outcome_state (main fuel a w fs)) \<and>
         bFinished (outcome_state (main fuel a w fs)) \<and>
         nErrors (outcome_state (main fuel a w fs)) = 1 \<and>
         nDownloaded (outcome_state (main fuel a w fs)) = count_events is_downloaded before \<and>
         nTotal (outcome_state (main fuel a w fs)) = count_events is_post before \<and>
         nSkipped (outcome_state (main fuel a w fs)) = count_events is_skipped before \<and>
         nFailed (outcome_state (main fuel a w fs)) = count_events is_failed before"
proof -
  let ?s = "outcome_state (main fuel a w fs)"
  let ?ev = "EvFetch url (Inl FileExistsException)"
  have inv: "run_inv a ?s" and ret: "bFinished ?s \<longrightarrow> returned (main fuel a w fs)"
    using walk_inv [OF init_inv, of a fuel w fs] by (simp_all add: main_def)
  from assms(1) have stop: "\<not> quiet a (before @ [?ev])"
    by (simp add: quiet_def count_events_def)
  from stop_is_last [OF inv assms(2) stop] have after: "after = []" and fin: "bFinished ?s"
    by simp_all
  from assms(2) after have tr: "trace ?s = before @ [?ev]" by simp
  with inv have "quiet a before" by (simp add: run_inv_def)
  with assms(1) have n: "count_events is_exists before = 0"
    by (simp add: quiet_def)
  from inv tr have c: "nErrors ?s = count_events is_exists before + 1"
    "nDownloaded ?s = count_events is_downloaded before"
    "nTotal ?s = count_events is_post before"
    "nSkipped ?s = count_events is_skipped before"
    "nFailed ?s = count_events is_failed before"
    by (simp_all add: run_inv_def count_events_def)
  from ret fin have "main fuel a w fs = Returned ?s" by (simp add: returned_iff)
  with after fin n c show ?thesis by simp
qed

theorem update_stops_at_first_duplicate_witness:
  "args_update update_args \<and>
   trace (outcome_state (main 2 update_args (feed_world feed_page) old_files)) =
     [EvGetItems [],
      EvPost ''t1'', EvResolve ''http://example.com/one.jpg'',
      EvFetch ''http://example.com/one.jpg'' (Inr ''out/one.jpg''),
      EvPost ''t2'', EvResolve ''http://example.com/two.jpg'',
      EvFetch ''http://example.com/two.jpg'' (Inr ''out/two.jpg''),
      EvPost ''t3'', EvResolve ''http://example.com/three.jpg''] @
     EvFetch ''http://example.com/three.jpg'' (Inl FileExistsException) # [] \<and>
   returned (main 2 update_args (feed_world feed_page) old_files) \<and>
   bFinished (outcome_state (main 2 update_args (feed_world feed_page) old_files)) \<and>
   nErrors (outcome_state (main 2 update_args (feed_world feed_page) old_files)) = 1 \<and>
   nDownloaded (outcome_state (main 2 update_args (feed_world feed_page) old_files)) = 2 \<and>
   nTotal (outcome_state (main 2 update_args (feed_world feed_page) old_files)) = 3 \<and>
   nSkipped (outcome_state (main 2 update_args (feed_world feed_page) old_files)) = 0 \<and>
   nFailed (outcome_state (main 2 update_args (feed_world feed_page) old_files)) = 0 \<and>
   EvPost ''t4'' \<notin> set (trace (outcome_state (main 2 update_args (feed_world feed_page) old_files)))"
proof -
  have u: "args_update update_args" by (simp add: update_args_def)
  have t: "trace (outcome_state (main 2 update_args (feed_world feed_page) old_files)) =
     [EvGetItems [],
      EvPost ''t1'', EvResolve ''http://example.com/one.jpg'',
      EvFetch ''http://example.com/one.jpg'' (Inr ''out/one.jpg''),
      EvPost ''t2'', EvResolve ''http://example.com/two.jpg'',
      EvFetch ''http://example.com/two.jpg'' (Inr ''out/two.jpg''),
      EvPost ''t3'', EvResolve ''http://example.com/three.jpg''] @
     EvFetch ''http://example.com/three.jpg'' (Inl FileExistsException) # []"
    by code_simp
  note r = update_stops_at_first_duplicate [OF u t]
  from r have "returned (main 2 update_args (feed_world feed_page) old_files)"
    by (simp add: returned_iff)
  moreover from r
  have "bFinished (outcome_state (main 2 update_args (feed_world feed_page) old_files))"
    "nErrors (outcome_state (main 2 update_args (feed_world feed_page) old_files)) = 1"
    "nDownloaded (outcome_state (main 2 update_args (feed_world feed_page) old_files)) = 2"
    "nTotal (outcome_state (main 2 update_args (feed_world feed_page) old_files)) = 3"
    "nSkipped (outcome_state (main 2 update_args (feed_world feed_page) old_files)) = 0"
    "nFailed (outcome_state (main 2 update_args (feed_world feed_page) old_files)) = 0"
    by (simp_all add: count_events_def)
  ultimately show ?thesis using u t by simp
qed

end
